theory Spec2Isabelle
  imports Complex_Main "HOL-Library.Sublist" "HOL-Library.Log_Nat"
begin

text \<open>
  The core of intee: the resolver \<^verbatim>\<open>Internationalization.resolve\<close> with the tagging of its
  result (\<^verbatim>\<open>packages/core/build.ts\<close>, lines 215 to 296), the predicate combinators and the
  loader combinator \<^verbatim>\<open>memoize\<close> (\<^verbatim>\<open>packages/core/src/helpers/match.ts\<close>).

  Names are those of the source, except where Isabelle reserves them: the combinator
  \<^verbatim>\<open>is\<close> is \<open>is_tag\<close>, the field \<^verbatim>\<open>tag\<close> of a source is \<open>source_tag\<close> (\<open>tag\<close> is the
  function), and the variable \<^verbatim>\<open>max\<close> of \<^verbatim>\<open>resolve\<close> is \<open>max'\<close>.
\<close>

section \<open>Numbers\<close>

text \<open>
  A JavaScript \<^verbatim>\<open>number\<close> is an IEEE 754 binary64 value. Its finite values are the rationals
  \<open>n * 2 ^ q\<close> with \<open>\<bar>n\<bar> < 2 ^ 53\<close> and \<open>- 1074 \<le> q \<le> 971\<close>, and every arithmetic
  operation returns the exact result rounded to the nearest of them, a tie going to the
  even \<open>n\<close>; a result of magnitude \<open>2 ^ 1024\<close> or more after rounding is an infinity.

  \<open>round_half_even z\<close> is the integer nearest to \<open>z\<close>, \<open>flog2 x\<close> the binary exponent
  \<open>\<lfloor>log\<^sub>2 \<bar>x\<bar>\<rfloor>\<close> of a rational other than 0, and \<open>round_double x\<close> the double nearest to
  \<open>x\<close>, or \<^term>\<open>None\<close> when \<open>x\<close> rounds out of the range.
\<close>

definition round_half_even :: "rat \<Rightarrow> int" where
  "round_half_even z =
     (let n = \<lfloor>z\<rfloor>; r = z - of_int n in
      if r < 1 / 2 then n else if 1 / 2 < r then n + 1 else if even n then n else n + 1)"

definition flog2 :: "rat \<Rightarrow> int" where
  "flog2 x = (if 1 \<le> \<bar>x\<bar> then bitlen \<lfloor>\<bar>x\<bar>\<rfloor> - 1 else - bitlen (\<lceil>1 / \<bar>x\<bar>\<rceil> - 1))"

definition round_double :: "rat \<Rightarrow> rat option" where
  "round_double x =
     (if x = 0 then Some 0
      else let q = max (flog2 x - 52) (- 1074);
               n = round_half_even (x / 2 powi q)
           in if 971 < q \<or> (q = 971 \<and> 2 ^ 53 \<le> \<bar>n\<bar>) then None
              else Some (of_int n * 2 powi q))"

text \<open>Rules with which \<open>simp\<close> evaluates the rounding of a numeral.\<close>

lemma floor_rat_numeral_divide:
  "\<lfloor>numeral a / numeral b :: rat\<rfloor> = numeral a div numeral b"
  "\<lfloor>- (numeral a / numeral b) :: rat\<rfloor> = - numeral a div numeral b"
  "\<lfloor>1 / numeral b :: rat\<rfloor> = 1 div numeral b"
  "\<lfloor>- (1 / numeral b) :: rat\<rfloor> = - 1 div numeral b"
     apply (metis floor_divide_of_int_eq of_int_numeral)
    apply (metis divide_minus_left floor_divide_of_int_eq of_int_neg_numeral of_int_numeral)
   apply (metis floor_divide_of_int_eq of_int_numeral of_int_1)
  apply (metis divide_minus_left floor_divide_of_int_eq of_int_minus of_int_numeral of_int_1)
  done

lemma ceiling_rat_numeral_divide:
  "\<lceil>numeral a / numeral b :: rat\<rceil> = - (- numeral a div numeral b)"
  "\<lceil>1 / numeral b :: rat\<rceil> = - (- 1 div numeral b)"
  by (simp_all add: ceiling_def floor_rat_numeral_divide)

lemmas round_double_eval = round_double_def flog2_def round_half_even_def Let_def compute_bitlen
  floor_rat_numeral_divide ceiling_rat_numeral_divide

text \<open>Rounding is symmetric: the double nearest to \<open>- x\<close> is the negation of that of \<open>x\<close>.\<close>

lemma round_half_even_minus: "round_half_even (- z) = - round_half_even z"
proof (cases "z = of_int \<lfloor>z\<rfloor>")
  case True
  then obtain n where z: "z = of_int n" ..
  show ?thesis unfolding z by (simp add: round_half_even_def flip: of_int_minus)
next
  case False
  have lo: "of_int \<lfloor>z\<rfloor> < z" using False of_int_floor_le [of z] by linarith
  have hi: "z < of_int \<lfloor>z\<rfloor> + 1" by linarith
  have fl: "\<lfloor>- z\<rfloor> = - \<lfloor>z\<rfloor> - 1"
    using lo hi by (intro floor_unique) auto
  show ?thesis
    using lo hi by (auto simp: round_half_even_def Let_def fl)
qed

lemma round_double_minus: "round_double (- x) = map_option uminus (round_double x)"
proof (cases "x = 0")
  case True
  then show ?thesis by (simp add: round_double_def)
next
  case False
  define q where "q = max (flog2 x - 52) (- 1074)"
  define n where "n = round_half_even (x / 2 powi q)"
  have f: "flog2 (- x) = flog2 x"
    by (simp add: flog2_def)
  have n': "round_half_even (- x / 2 powi q) = - n"
    by (simp add: n_def round_half_even_minus)
  have a: "round_double x =
      (if 971 < q \<or> (q = 971 \<and> 2 ^ 53 \<le> \<bar>n\<bar>) then None else Some (of_int n * 2 powi q))"
    using False unfolding round_double_def Let_def q_def [symmetric] n_def [symmetric] by simp
  have "- x \<noteq> 0" using False by simp
  then have b: "round_double (- x) =
      (if 971 < q \<or> (q = 971 \<and> 2 ^ 53 \<le> \<bar>- n\<bar>) then None else Some (of_int (- n) * 2 powi q))"
    unfolding round_double_def Let_def f q_def [symmetric] n' by simp
  show ?thesis unfolding a b by simp
qed

lemma round_half_even_of_int: "round_half_even (of_int m) = m"
  by (simp add: round_half_even_def)

lemma round_double_zero: "round_double 0 = Some 0"
  by (simp add: round_double_def)

lemma round_half_even_range: "\<lfloor>z\<rfloor> \<le> round_half_even z \<and> round_half_even z \<le> \<lceil>z\<rceil>"
proof (cases "z = of_int \<lfloor>z\<rfloor>")
  case True
  then obtain n where "z = of_int n" ..
  then show ?thesis by (simp add: round_half_even_of_int)
next
  case False
  then have "\<lceil>z\<rceil> = \<lfloor>z\<rfloor> + 1"
    by (simp add: ceiling_altdef)
  then show ?thesis
    by (simp add: round_half_even_def Let_def)
qed

lemma round_half_even_bound:
  assumes "\<bar>z\<bar> \<le> of_int N"
  shows "\<bar>round_half_even z\<bar> \<le> N"
proof -
  have "- of_int N \<le> z" "z \<le> of_int N" using assms by linarith+
  then have "- N \<le> \<lfloor>z\<rfloor>" "\<lceil>z\<rceil> \<le> N"
    by (simp_all add: le_floor_iff ceiling_le_iff)
  then show ?thesis using round_half_even_range [of z] by linarith
qed

text \<open>The binary exponent: \<open>2 ^ flog2 x \<le> \<bar>x\<bar> < 2 ^ (flog2 x + 1)\<close>.\<close>

lemma flog2_bounds:
  assumes "x \<noteq> 0"
  shows "2 powi flog2 x \<le> \<bar>x\<bar>" and "\<bar>x\<bar> < 2 powi (flog2 x + 1)"
proof -
  have "2 powi flog2 x \<le> \<bar>x\<bar> \<and> \<bar>x\<bar> < 2 powi (flog2 x + 1)"
  proof (cases "1 \<le> \<bar>x\<bar>")
    case True
    define m where "m = \<lfloor>\<bar>x\<bar>\<rfloor>"
    define b where "b = bitlen m"
    have m: "0 < m" using True by (simp add: m_def)
    from bitlen_bounds [OF m] have lo: "2 ^ nat (b - 1) \<le> m" and hi: "m < 2 ^ nat b"
      by (simp_all add: b_def)
    have b: "1 \<le> b"
      unfolding b_def using m bitlen_eq_zero_iff [of m] bitlen_nonneg [of m] by linarith
    have f: "flog2 x = b - 1"
      using True by (simp add: flog2_def m_def b_def)
    have p1: "(2 :: rat) powi (b - 1) = of_int (2 ^ nat (b - 1))"
      using b by (simp add: power_int_def)
    have p2: "(2 :: rat) powi b = of_int (2 ^ nat b)"
      using b by (simp add: power_int_def)
    have "of_int (2 ^ nat (b - 1)) \<le> (of_int m :: rat)"
      using lo by (simp only: of_int_le_iff)
    also have "\<dots> \<le> \<bar>x\<bar>" by (simp add: m_def)
    finally have a: "2 powi (b - 1) \<le> \<bar>x\<bar>" by (simp only: p1)
    have "\<bar>x\<bar> < of_int (m + 1)"
      using floor_correct [of "\<bar>x\<bar>"] by (simp add: m_def)
    also have "\<dots> \<le> (of_int (2 ^ nat b) :: rat)"
    proof -
      have "m + 1 \<le> 2 ^ nat b" using hi by simp
      then show ?thesis by (simp only: of_int_le_iff)
    qed
    finally have "\<bar>x\<bar> < 2 powi b" by (simp only: p2)
    then show ?thesis using a by (simp add: f)
  next
    case False
    define z where "z = 1 / \<bar>x\<bar>"
    define m where "m = \<lceil>z\<rceil>"
    define c where "c = bitlen (m - 1)"
    have x: "0 < \<bar>x\<bar>" "\<bar>x\<bar> < 1" using assms False by simp_all
    have z: "1 < z" using x by (simp add: z_def)
    have m: "0 < m - 1" using z by (simp add: m_def less_ceiling_iff)
    from bitlen_bounds [OF m] have lo: "2 ^ nat (c - 1) \<le> m - 1" and hi: "m - 1 < 2 ^ nat c"
      by (simp_all add: c_def)
    have c: "1 \<le> c"
      unfolding c_def using m bitlen_eq_zero_iff [of "m - 1"] bitlen_nonneg [of "m - 1"]
      by linarith
    have f: "flog2 x = - c"
      using False by (simp add: flog2_def z_def m_def c_def)
    have p1: "(2 :: rat) powi (- c) = 1 / of_int (2 ^ nat c)"
      using c by (simp add: power_int_def field_simps)
    have p2: "(2 :: rat) powi (- c + 1) = 1 / of_int (2 ^ nat (c - 1))"
      using c by (simp add: power_int_def field_simps nat_diff_distrib)
    have xz: "\<bar>x\<bar> = 1 / z" by (simp add: z_def)
    have "z \<le> of_int m" by (simp add: m_def)
    also have "\<dots> \<le> (of_int (2 ^ nat c) :: rat)"
    proof -
      have "m \<le> 2 ^ nat c" using hi by simp
      then show ?thesis by (simp only: of_int_le_iff)
    qed
    finally have "1 / of_int (2 ^ nat c) \<le> 1 / z"
      using z by (intro divide_left_mono) auto
    then have a: "2 powi (- c) \<le> \<bar>x\<bar>" by (simp only: p1 xz)
    have "(of_int (2 ^ nat (c - 1)) :: rat) \<le> of_int (m - 1)"
      using lo by (simp only: of_int_le_iff)
    also have "\<dots> < z" by (simp add: m_def) linarith
    finally have "1 / z < 1 / of_int (2 ^ nat (c - 1))"
      using z by (intro divide_strict_left_mono) auto
    then have "\<bar>x\<bar> < 2 powi (- c + 1)" by (simp only: p2 xz)
    then show ?thesis using a by (simp add: f)
  qed
  then show "2 powi flog2 x \<le> \<bar>x\<bar>" and "\<bar>x\<bar> < 2 powi (flog2 x + 1)" by simp_all
qed

lemma flog2_less:
  assumes "x \<noteq> 0" and "\<bar>x\<bar> < 2 powi e"
  shows "flog2 x < e"
proof (rule ccontr)
  assume "\<not> flog2 x < e"
  then have "(2 :: rat) powi e \<le> 2 powi flog2 x"
    by (intro power_int_increasing) auto
  then show False using flog2_bounds(1) [OF assms(1)] assms(2) by linarith
qed

lemma round_double_unfold:
  assumes "x \<noteq> 0"
  shows "round_double x =
    (if 971 < max (flog2 x - 52) (- 1074) \<or>
        (max (flog2 x - 52) (- 1074) = 971 \<and>
         2 ^ 53 \<le> \<bar>round_half_even (x / 2 powi max (flog2 x - 52) (- 1074))\<bar>)
     then None
     else Some (of_int (round_half_even (x / 2 powi max (flog2 x - 52) (- 1074))) *
                2 powi max (flog2 x - 52) (- 1074)))"
  using assms unfolding round_double_def Let_def by (simp only: if_False)

text \<open>
  The doubles are the rationals \<open>n * 2 ^ q\<close> with \<open>\<bar>n\<bar> < 2 ^ 53\<close> and
  \<open>- 1074 \<le> q \<le> 971\<close>: rounding leaves each of them as it is, and returns nothing else.
\<close>

lemma round_double_grid:
  assumes n: "\<bar>n\<bar> < 2 ^ 53" and q: "- 1074 \<le> q" "q \<le> 971"
  shows "round_double (of_int n * 2 powi q) = Some (of_int n * 2 powi q)"
proof (cases "n = 0")
  case True
  then show ?thesis by (simp add: round_double_def)
next
  case nz: False
  define y :: rat where "y = of_int n * 2 powi q"
  have ynz: "y \<noteq> 0" using nz by (simp add: y_def)
  have pq: "0 < (2 :: rat) powi q" by simp
  have absy: "\<bar>y\<bar> = of_int \<bar>n\<bar> * 2 powi q"
    by (simp add: y_def abs_mult)
  have "(of_int \<bar>n\<bar> :: rat) < of_int (2 ^ 53)"
    using n by (simp only: of_int_less_iff)
  then have "\<bar>y\<bar> < 2 ^ 53 * 2 powi q"
    unfolding absy using pq by simp
  also have "\<dots> = 2 powi (q + 53)"
    by (simp add: power_int_add)
  finally have "\<bar>y\<bar> < 2 powi (q + 53)" .
  with ynz have fy: "flog2 y < q + 53" by (rule flog2_less)
  define q' where "q' = max (flog2 y - 52) (- 1074)"
  have q'q: "q' \<le> q" using fy q(1) by (simp add: q'_def)
  define k where "k = nat (q - q')"
  have "q = q' + int k" using q'q by (simp add: k_def)
  then have pw: "(2 :: rat) powi q = 2 powi q' * 2 ^ k"
    by (simp add: power_int_add)
  have dv: "y / 2 powi q' = of_int (n * 2 ^ k)"
    by (simp add: y_def pw)
  have no: "\<not> (971 < q' \<or> (q' = 971 \<and> 2 ^ 53 \<le> \<bar>n * 2 ^ k\<bar>))"
  proof (cases "q' = 971")
    case True
    then have "q = 971" using q'q q(2) by simp
    then have "k = 0" using True by (simp add: k_def)
    then show ?thesis using True n by simp
  next
    case False
    then show ?thesis using q'q q(2) by simp
  qed
  have "round_double y = Some (of_int (n * 2 ^ k) * 2 powi q')"
    unfolding round_double_unfold [OF ynz] q'_def [symmetric] dv round_half_even_of_int
    using no by (simp only: if_False)
  also have "of_int (n * 2 ^ k) * 2 powi q' = y"
    by (simp add: y_def pw)
  finally show ?thesis by (simp only: y_def)
qed

lemma round_double_range:
  assumes "round_double x = Some y"
  shows "\<exists>n q. y = of_int n * 2 powi q \<and> \<bar>n\<bar> < 2 ^ 53 \<and> - 1074 \<le> q \<and> q \<le> 971"
proof (cases "x = 0")
  case True
  then have "y = of_int 0 * 2 powi 0" using assms by (simp add: round_double_def)
  then show ?thesis by (intro exI [of _ 0] exI [of _ "0 :: int"]) simp
next
  case False
  define q where "q = max (flog2 x - 52) (- 1074)"
  define n where "n = round_half_even (x / 2 powi q)"
  have a: "round_double x =
      (if 971 < q \<or> (q = 971 \<and> 2 ^ 53 \<le> \<bar>n\<bar>) then None else Some (of_int n * 2 powi q))"
    unfolding round_double_unfold [OF False] q_def [symmetric] n_def [symmetric] ..
  have ok: "q \<le> 971" "q = 971 \<longrightarrow> \<bar>n\<bar> < 2 ^ 53" and y: "y = of_int n * 2 powi q"
    using assms unfolding a by (auto split: if_splits)
  have q1074: "- 1074 \<le> q" and qe: "flog2 x - 52 \<le> q"
    by (simp_all add: q_def)
  have pq: "0 < (2 :: rat) powi q" by simp
  have "\<bar>x\<bar> < 2 powi (flog2 x + 1)"
    using False by (rule flog2_bounds(2))
  also have "\<dots> \<le> 2 powi (q + 53)"
    using qe by (intro power_int_increasing) auto
  also have "\<dots> = 2 powi q * 2 ^ 53"
    by (simp add: power_int_add)
  finally have "\<bar>x\<bar> / 2 powi q < 2 ^ 53"
    using pq by (simp add: field_simps)
  then have "\<bar>x / 2 powi q\<bar> \<le> of_int (2 ^ 53)"
    by simp
  then have nb: "\<bar>n\<bar> \<le> 2 ^ 53"
    unfolding n_def by (rule round_half_even_bound)
  show ?thesis
  proof (cases "\<bar>n\<bar> = 2 ^ 53")
    case True
    have q970: "q \<le> 970" using ok True by (cases "q = 971") auto
    define h where "h = n div 2"
    have "n = 9007199254740992 \<or> n = - 9007199254740992"
      using True by (simp add: abs_if split: if_splits)
    then have n2: "n = 2 * h" and h: "\<bar>h\<bar> < 2 ^ 53"
      by (auto simp: h_def)
    have "y = of_int h * 2 powi (q + 1)"
      by (simp add: y n2 power_int_add)
    then show ?thesis using h q970 q1074 by (intro exI [of _ h] exI [of _ "q + 1"]) simp
  next
    case False
    then have "\<bar>n\<bar> < 2 ^ 53" using nb by simp
    then show ?thesis using y ok(1) q1074 by blast
  qed
qed

lemma round_double_idem:
  assumes "round_double x = Some y"
  shows "round_double y = Some y"
proof -
  from round_double_range [OF assms] obtain n q where
    "y = of_int n * 2 powi q" "\<bar>n\<bar> < 2 ^ 53" "- 1074 \<le> q" "q \<le> 971"
    by blast
  then show ?thesis by (simp only: round_double_grid)
qed

lemma round_double_of_nat:
  assumes "n < 2 ^ 53"
  shows "round_double (of_nat n) = Some (of_nat n)"
proof -
  have "int n < 2 ^ 53" using assms by (metis of_nat_less_iff of_nat_numeral of_nat_power)
  then have "\<bar>int n\<bar> < 2 ^ 53" by simp
  then have "round_double (of_int (int n) * 2 powi 0) = Some (of_int (int n) * 2 powi 0)"
    by (rule round_double_grid) simp_all
  then show ?thesis by simp
qed

text \<open>
  The finite doubles: the rationals that rounding leaves as they are. They carry the
  order of the rationals, and negation and absolute value stay among them.
\<close>

typedef double = "{x :: rat. round_double x = Some x}"
  by (rule exI [of _ 0]) (simp add: round_double_def)

setup_lifting type_definition_double

instantiation double :: "{zero, one, uminus, abs, linorder, equal}"
begin

lift_definition zero_double :: double is 0
  by (simp add: round_double_def)

lift_definition one_double :: double is 1
  by (simp add: round_double_eval)

lift_definition uminus_double :: "double \<Rightarrow> double" is uminus
  by (simp add: round_double_minus)

lift_definition abs_double :: "double \<Rightarrow> double" is abs
  by (simp add: abs_if round_double_minus)

lift_definition less_eq_double :: "double \<Rightarrow> double \<Rightarrow> bool" is "(\<le>)" .

lift_definition less_double :: "double \<Rightarrow> double \<Rightarrow> bool" is "(<)" .

lift_definition equal_double :: "double \<Rightarrow> double \<Rightarrow> bool" is "(=)" .

instance
  by standard (transfer; auto)+

end

text \<open>The double nearest to a rational in the range (0 stands in when it is out of range).\<close>

lift_definition to_double :: "rat \<Rightarrow> double" is
  "\<lambda>x. case round_double x of Some y \<Rightarrow> y | None \<Rightarrow> 0"
  by (simp add: round_double_idem round_double_zero split: option.splits)

lemmas double_rep = zero_double.rep_eq one_double.rep_eq uminus_double.rep_eq abs_double.rep_eq
  less_double.rep_eq less_eq_double.rep_eq to_double.rep_eq

lemma double_eq_iff: "a = b \<longleftrightarrow> Rep_double a = Rep_double b"
  by (simp add: Rep_double_inject)

text \<open>
  A number: a finite double (\<open>Fin 0\<close> is the positive zero), the negative zero, an
  infinity, or NaN.
\<close>

datatype number = Fin double | NegZero | PInf | NInf | NaN

definition signed_zero :: "bool \<Rightarrow> number" where
  "signed_zero negative = (if negative then NegZero else Fin 0)"

definition inf_of_sign :: "bool \<Rightarrow> number" where
  "inf_of_sign positive = (if positive then PInf else NInf)"

text \<open>
  The number an exact result \<open>x\<close> is rounded to: an infinity of its sign when it is out of
  range, a zero of its sign when it is too small.
\<close>

definition rounded :: "rat \<Rightarrow> number" where
  "rounded x =
     (case round_double x of
        None \<Rightarrow> inf_of_sign (0 < x)
      | Some y \<Rightarrow> if y = 0 then signed_zero (x < 0) else Fin (to_double x))"

text \<open>The number a numeric literal, or an integer such as an array length, denotes.\<close>

definition num :: "rat \<Rightarrow> number" where
  "num x = rounded x"

text \<open>The value of a finite number, and the sign bit of a number.\<close>

fun val :: "number \<Rightarrow> rat option" where
  "val (Fin d) = Some (Rep_double d)"
| "val NegZero = Some 0"
| "val a = None"

fun negative :: "number \<Rightarrow> bool" where
  "negative (Fin d) = (d < 0)"
| "negative NegZero = True"
| "negative NInf = True"
| "negative a = False"

text \<open>Unary minus.\<close>

fun js_neg :: "number \<Rightarrow> number" where
  "js_neg (Fin d) = (if d = 0 then NegZero else Fin (- d))"
| "js_neg NegZero = Fin 0"
| "js_neg PInf = NInf"
| "js_neg NInf = PInf"
| "js_neg NaN = NaN"

text \<open>\<^verbatim>\<open>Math.abs\<close>.\<close>

fun js_abs :: "number \<Rightarrow> number" where
  "js_abs (Fin d) = Fin \<bar>d\<bar>"
| "js_abs NegZero = Fin 0"
| "js_abs PInf = PInf"
| "js_abs NInf = PInf"
| "js_abs NaN = NaN"

text \<open>
  The comparison \<^verbatim>\<open>a > b\<close>: false whenever an operand is NaN; the two zeros compare equal.
\<close>

definition js_gt :: "number \<Rightarrow> number \<Rightarrow> bool" where
  "js_gt a b =
     (case (val a, val b) of
        (Some x, Some y) \<Rightarrow> y < x
      | (Some x, None) \<Rightarrow> b = NInf
      | (None, Some y) \<Rightarrow> a = PInf
      | (None, None) \<Rightarrow> a = PInf \<and> b = NInf)"

text \<open>
  \<^verbatim>\<open>a + b\<close>: the exact sum, rounded. A sum that is exactly zero is the positive zero,
  unless both operands are negative zeros; opposite infinities give NaN.
\<close>

definition js_add :: "number \<Rightarrow> number \<Rightarrow> number" where
  "js_add a b =
     (if a = NaN \<or> b = NaN then NaN
      else case (val a, val b) of
        (Some x, Some y) \<Rightarrow>
          if x + y = 0 then signed_zero (negative a \<and> negative b) else rounded (x + y)
      | (Some x, None) \<Rightarrow> b
      | (None, Some y) \<Rightarrow> a
      | (None, None) \<Rightarrow> if a = b then a else NaN)"

text \<open>
  \<^verbatim>\<open>a * b\<close>: the exact product, rounded; the sign of a zero or of an infinity is the
  product of the signs, and zero times an infinity is NaN.
\<close>

definition js_mul :: "number \<Rightarrow> number \<Rightarrow> number" where
  "js_mul a b =
     (if a = NaN \<or> b = NaN then NaN
      else case (val a, val b) of
        (Some x, Some y) \<Rightarrow>
          if x * y = 0 then signed_zero (negative a \<noteq> negative b) else rounded (x * y)
      | (Some x, None) \<Rightarrow> if x = 0 then NaN else inf_of_sign (negative a = negative b)
      | (None, Some y) \<Rightarrow> if y = 0 then NaN else inf_of_sign (negative a = negative b)
      | (None, None) \<Rightarrow> inf_of_sign (negative a = negative b))"

text \<open>
  \<^verbatim>\<open>a / b\<close>: the exact quotient, rounded. \<^verbatim>\<open>0 / 0\<close> and a quotient of infinities are NaN,
  another number over a zero is an infinity, a finite number over an infinity is a zero.
\<close>

definition js_div :: "number \<Rightarrow> number \<Rightarrow> number" where
  "js_div a b =
     (if a = NaN \<or> b = NaN then NaN
      else case (val a, val b) of
        (Some x, Some y) \<Rightarrow>
          if y = 0 then (if x = 0 then NaN else inf_of_sign (negative a = negative b))
          else if x = 0 then signed_zero (negative a \<noteq> negative b)
          else rounded (x / y)
      | (Some x, None) \<Rightarrow> signed_zero (negative a \<noteq> negative b)
      | (None, Some y) \<Rightarrow> inf_of_sign (negative a = negative b)
      | (None, None) \<Rightarrow> NaN)"

text \<open>What a predicate returns: \<^verbatim>\<open>number | boolean\<close>.\<close>

datatype verdict = Boolean bool | Numeric number

text \<open>\<^verbatim>\<open>Number(v)\<close> on a verdict: true is 1, false is 0, a number is itself.\<close>

fun Number :: "verdict \<Rightarrow> number" where
  "Number (Boolean b) = (if b then Fin 1 else Fin 0)"
| "Number (Numeric n) = n"

section \<open>Computations\<close>

text \<open>
  A JavaScript call is run in a world \<^typ>\<open>'w\<close> (everything mutable it can reach); it either
  raises (\<^term>\<open>Inl\<close> of the thrown value) or returns (\<^term>\<open>Inr\<close>), and leaves a new world.
\<close>

type_synonym ('w, 'e, 'a) js = "'w \<Rightarrow> ('e + 'a) \<times> 'w"

text \<open>\<^verbatim>\<open>type Predicate = (tag: string) => number | boolean\<close>\<close>

type_synonym ('w, 'e) Predicate = "string \<Rightarrow> ('w, 'e, verdict) js"

text \<open>A predicate that is a function of the tag alone: it raises nothing and touches nothing.\<close>

definition pure_predicate :: "(string \<Rightarrow> verdict) \<Rightarrow> ('w, 'e) Predicate" where
  "pure_predicate f = (\<lambda>tag w. (Inr (f tag), w))"

section \<open>Regular expression objects\<close>

text \<open>
  A \<^verbatim>\<open>RegExp\<close> object, as \<^verbatim>\<open>RegExp.prototype.test\<close> of the language standard reads and
  writes it. The compiled pattern is the field \<open>matcher\<close>: \<open>matcher S i\<close> is the end index
  of a match of the pattern that starts exactly at index \<open>i\<close> of \<open>S\<close>, if there is one.
  Indices advance by one (no \<^verbatim>\<open>u\<close> flag).
\<close>

record RegExp =
  matcher :: "string \<Rightarrow> nat \<Rightarrow> nat option"
  global :: bool
  sticky :: bool
  lastIndex :: nat

text \<open>The search loop of RegExpBuiltinExec, from \<open>i\<close> on.\<close>

function regexp_search :: "RegExp \<Rightarrow> string \<Rightarrow> nat \<Rightarrow> nat option" where
  "regexp_search R S i =
     (if length S < i then None
      else case matcher R S i of
             Some e \<Rightarrow> Some e
           | None \<Rightarrow> if sticky R then None else regexp_search R S (i + 1))"
  by pat_completeness auto
termination
  by (relation "measure (\<lambda>(R, S, i). Suc (length S) - i)") auto

declare regexp_search.simps [simp del]

text \<open>
  \<^verbatim>\<open>R.test(S)\<close>: the search starts at \<^verbatim>\<open>lastIndex\<close> when the object is global or sticky
  (at 0 otherwise), and such an object has its \<^verbatim>\<open>lastIndex\<close> set to the end of the match,
  or to 0 when there is none.
\<close>

definition regexp_test :: "RegExp \<Rightarrow> string \<Rightarrow> bool \<times> RegExp" where
  "regexp_test R S =
     (let start = (if \<not> global R \<and> \<not> sticky R then 0 else lastIndex R) in
      case regexp_search R S start of
        None \<Rightarrow> (False, if global R \<or> sticky R then R\<lparr>lastIndex := 0\<rparr> else R)
      | Some e \<Rightarrow> (True, if global R \<or> sticky R then R\<lparr>lastIndex := e\<rparr> else R))"

text \<open>The matcher of a pattern that is a literal string, such as \<^verbatim>\<open>/en/\<close>.\<close>

definition literal :: "string \<Rightarrow> string \<Rightarrow> nat \<Rightarrow> nat option" where
  "literal pat S i =
     (if take (length pat) (drop i S) = pat then Some (i + length pat) else None)"

section \<open>Predicate combinators (match.ts, lines 11 to 70)\<close>

definition startsWith :: "string \<Rightarrow> ('w, 'e) Predicate" where
  "startsWith pre = (\<lambda>tag w. (Inr (Boolean (prefix pre tag)), w))"

definition endsWith :: "string \<Rightarrow> ('w, 'e) Predicate" where
  "endsWith suf = (\<lambda>tag w. (Inr (Boolean (suffix suf tag)), w))"

definition is_tag :: "string \<Rightarrow> ('w, 'e) Predicate" where
  "is_tag expected = (\<lambda>tag w. (Inr (Boolean (expected = tag)), w))"

definition isOneOf :: "string list \<Rightarrow> ('w, 'e) Predicate" where
  "isOneOf candidates = (\<lambda>tag w. (Inr (Boolean (tag \<in> set candidates)), w))"

text \<open>
  \<^verbatim>\<open>matches(pattern)\<close> is \<^verbatim>\<open>pattern.test.bind(pattern)\<close>: every call runs \<^verbatim>\<open>test\<close> on the one
  RegExp object the caller passed. The object lives in the world; \<open>get\<close> and \<open>put\<close> read
  and write it there.
\<close>

definition matches ::
  "('w \<Rightarrow> RegExp) \<Rightarrow> (RegExp \<Rightarrow> 'w \<Rightarrow> 'w) \<Rightarrow> ('w, 'e) Predicate" where
  "matches get put =
     (\<lambda>tag w. case regexp_test (get w) tag of (b, R') \<Rightarrow> (Inr (Boolean b), put R' w))"

definition weighted :: "number \<Rightarrow> ('w, 'e) Predicate \<Rightarrow> ('w, 'e) Predicate" where
  "weighted factor predicate =
     (\<lambda>tag w. case predicate tag w of
                 (Inl e, w') \<Rightarrow> (Inl e, w')
               | (Inr v, w') \<Rightarrow> (Inr (Numeric (js_mul (Number v) factor)), w'))"

text \<open>The \<^verbatim>\<open>reduce\<close> of \<^verbatim>\<open>mean\<close>: left to right, from the given running total (\<^verbatim>\<open>sum\<close> in the source).\<close>

fun mean_reduce :: "('w, 'e) Predicate list \<Rightarrow> string \<Rightarrow> number \<Rightarrow> ('w, 'e, number) js" where
  "mean_reduce [] tag acc w = (Inr acc, w)"
| "mean_reduce (p # ps) tag acc w =
     (case p tag w of
        (Inl e, w') \<Rightarrow> (Inl e, w')
      | (Inr v, w') \<Rightarrow> mean_reduce ps tag (js_add acc (Number v)) w')"

definition mean :: "('w, 'e) Predicate list \<Rightarrow> ('w, 'e) Predicate" where
  "mean predicates =
     (\<lambda>tag w. case mean_reduce predicates tag (Fin 0) w of
                 (Inl e, w') \<Rightarrow> (Inl e, w')
               | (Inr acc, w') \<Rightarrow>
                   (Inr (Numeric (js_div acc (num (of_nat (length predicates))))), w'))"

section \<open>Objects and tagging (build.ts, lines 222 to 234)\<close>

text \<open>
  A property key is a string or a symbol. A symbol is known by its identity (here a serial
  number); its description plays no part in a lookup.
\<close>

datatype key = StringKey string | SymbolKey string nat

text \<open>A property value: a string, or any other value (\<^typ>\<open>'a\<close>).\<close>

datatype 'a jsvalue = Text string | Foreign 'a

text \<open>
  A value as \<^verbatim>\<open>Object.assign\<close> sees it: the map of its own enumerable properties (empty for
  \<^verbatim>\<open>null\<close>, \<^verbatim>\<open>undefined\<close>, a number or a boolean). Properties are data properties.
\<close>

type_synonym 'a object = "key \<rightharpoonup> 'a jsvalue"

text \<open>
  \<^verbatim>\<open>Object.assign(target, ...sources)\<close> on a target that inherits from
  \<^verbatim>\<open>Object.prototype\<close> and has no own key \<^verbatim>\<open>__proto__\<close>, such as the fresh \<^verbatim>\<open>{}\<close> that \<^verbatim>\<open>tag\<close>
  passes. Every own enumerable property of a source is written to the target with
  \<^verbatim>\<open>[[Set]]\<close>, later sources overwriting earlier ones. For the string key \<^verbatim>\<open>__proto__\<close> that
  write runs the setter inherited from \<^verbatim>\<open>Object.prototype\<close>: the target gets no property of
  that name (the setter replaces the prototype of the target when the value is an object or
  \<^verbatim>\<open>null\<close>). The result is the map of the own properties of the target; its prototype is
  not modelled, so a value of \<^verbatim>\<open>__proto__\<close> that brings accessors or read-only properties
  into the prototype chain is outside the model.
\<close>

definition assign_from :: "'a object \<Rightarrow> 'a object \<Rightarrow> 'a object" where
  "assign_from target src = target ++ (src |` (- {StringKey ''__proto__''}))"

definition Object_assign :: "'a object \<Rightarrow> 'a object list \<Rightarrow> 'a object" where
  "Object_assign target srcs = foldl assign_from target srcs"

text \<open>\<^verbatim>\<open>export const Tag: unique symbol = Symbol("Internationalization.Tag")\<close>\<close>

definition Tag :: key where
  "Tag = SymbolKey ''Internationalization.Tag'' 0"

text \<open>\<^verbatim>\<open>tag(t, tag) = Object.assign({}, t, {[Tag]: tag})\<close>\<close>

definition tag :: "'a object \<Rightarrow> 'a jsvalue \<Rightarrow> 'a object" where
  "tag t v = Object_assign Map.empty [t, [Tag \<mapsto> v]]"

section \<open>Promises and loaders\<close>

text \<open>
  How a promise ends: fulfilled with a value, rejected with a reason, or never settled.
  A promise has an identity and this fate; when the fate arrives is not modelled.
\<close>

datatype ('e, 'c) settlement = Fulfills 'c | Rejects 'e | Pends

datatype ('e, 'c) PromiseLike = Promise (pid: nat) (fate: "('e, 'c) settlement")

text \<open>
  What a loader returns: \<^verbatim>\<open>Sync<T> = () => T\<close> returns the value, \<^verbatim>\<open>Async<T> = () =>
  PromiseLike<T>\<close> a promise. Either call may raise.
\<close>

datatype ('e, 'c) loaded = Now 'c | Later "('e, 'c) PromiseLike"

text \<open>\<^verbatim>\<open>await x\<close>: a value that is not a promise is its own result.\<close>

fun await :: "('e, 'c) loaded \<Rightarrow> ('e, 'c) settlement" where
  "await (Now c) = Fulfills c"
| "await (Later p) = fate p"

section \<open>Sources and the resolver (build.ts, lines 252 to 296)\<close>

record ('w, 'e, 'a) Source =
  source_tag :: string
  predicate :: "('w, 'e) Predicate"
  loader :: "('w, 'e, ('e, 'a object) loaded) js"

record ('w, 'e, 'a) Internationalization =
  fallback :: "('w, 'e, 'a) Source"
  sources :: "('w, 'e, 'a) Source list"

text \<open>The constructor: \<^verbatim>\<open>this.sources = [fallback, ...others]\<close>.\<close>

definition new_Internationalization ::
  "('w, 'e, 'a) Source \<Rightarrow> ('w, 'e, 'a) Source list \<Rightarrow> ('w, 'e, 'a) Internationalization" where
  "new_Internationalization fb others = \<lparr>fallback = fb, sources = fb # others\<rparr>"

text \<open>
  The inner loop of \<^verbatim>\<open>resolve\<close>, over the sources for one locale. The pair is the loop's
  \<^verbatim>\<open>max\<close> and \<^verbatim>\<open>source\<close>.
\<close>

fun scan_sources ::
  "('w, 'e, 'a) Source list \<Rightarrow> string \<Rightarrow> number \<times> ('w, 'e, 'a) Source \<Rightarrow>
   ('w, 'e, number \<times> ('w, 'e, 'a) Source) js" where
  "scan_sources [] locale (max', source) w = (Inr (max', source), w)"
| "scan_sources (s # ss) locale (max', source) w =
     (case predicate s locale w of
        (Inl e, w') \<Rightarrow> (Inl e, w')
      | (Inr v, w') \<Rightarrow>
          (let score = js_abs (Number v) in
           if js_gt score max' then scan_sources ss locale (score, s) w'
           else scan_sources ss locale (max', source) w'))"

text \<open>The outer loop, over the locales, with its \<^verbatim>\<open>if (max > 0) break\<close>.\<close>

fun scan_locales ::
  "('w, 'e, 'a) Source list \<Rightarrow> string list \<Rightarrow> number \<times> ('w, 'e, 'a) Source \<Rightarrow>
   ('w, 'e, number \<times> ('w, 'e, 'a) Source) js" where
  "scan_locales srcs [] best w = (Inr best, w)"
| "scan_locales srcs (locale # locales) best w =
     (case scan_sources srcs locale best w of
        (Inl e, w') \<Rightarrow> (Inl e, w')
      | (Inr (max', source), w') \<Rightarrow>
          if js_gt max' (Fin 0) then (Inr (max', source), w')
          else scan_locales srcs locales (max', source) w')"

text \<open>Lines 280 to 292 of \<^verbatim>\<open>resolve\<close>: the selection, from \<^verbatim>\<open>max = 0\<close> and the fallback.\<close>

definition select ::
  "('w, 'e, 'a) Internationalization \<Rightarrow> string list \<Rightarrow>
   ('w, 'e, number \<times> ('w, 'e, 'a) Source) js" where
  "select this locales = scan_locales (sources this) locales (Fin 0, fallback this)"

text \<open>
  The last line, \<^verbatim>\<open>return tag(await source.loader(), source.tag)\<close>, inside the \<^verbatim>\<open>async\<close>
  function: the result is how the promise that \<^verbatim>\<open>resolve\<close> returns ends.
\<close>

definition deliver ::
  "('w, 'e, 'a) Source \<Rightarrow> 'w \<Rightarrow> ('e, 'a object) settlement \<times> 'w" where
  "deliver source w =
     (case loader source w of
        (Inl e, w') \<Rightarrow> (Rejects e, w')
      | (Inr x, w') \<Rightarrow>
          (case await x of
             Fulfills t \<Rightarrow> (Fulfills (tag t (Text (source_tag source))), w')
           | Rejects e \<Rightarrow> (Rejects e, w')
           | Pends \<Rightarrow> (Pends, w')))"

definition resolve ::
  "('w, 'e, 'a) Internationalization \<Rightarrow> string list \<Rightarrow> 'w \<Rightarrow>
   ('e, 'a object) settlement \<times> 'w" where
  "resolve this locales w =
     (case select this locales w of
        (Inl e, w') \<Rightarrow> (Rejects e, w')
      | (Inr (max', source), w') \<Rightarrow> deliver source w')"

text \<open>
  What the predicates of the sources return for one locale, when they are called in
  registration order from the world \<open>w\<close>, as the inner loop calls them: the list of their
  verdicts and the world they leave, or the first error raised.
\<close>

fun verdicts ::
  "('w, 'e, 'a) Source list \<Rightarrow> string \<Rightarrow> ('w, 'e, verdict list) js" where
  "verdicts [] locale w = (Inr [], w)"
| "verdicts (s # ss) locale w =
     (case predicate s locale w of
        (Inl e, w') \<Rightarrow> (Inl e, w')
      | (Inr v, w') \<Rightarrow>
          (case verdicts ss locale w' of
             (Inl e, w'') \<Rightarrow> (Inl e, w'')
           | (Inr vs, w'') \<Rightarrow> (Inr (v # vs), w'')))"

text \<open>
  The same for a list of locales, as the outer loop calls them while it does not break.
\<close>

fun verdicts_all ::
  "('w, 'e, 'a) Source list \<Rightarrow> string list \<Rightarrow> ('w, 'e, verdict list list) js" where
  "verdicts_all srcs [] w = (Inr [], w)"
| "verdicts_all srcs (locale # locales) w =
     (case verdicts srcs locale w of
        (Inl e, w') \<Rightarrow> (Inl e, w')
      | (Inr vs, w') \<Rightarrow>
          (case verdicts_all srcs locales w' of
             (Inl e, w'') \<Rightarrow> (Inl e, w'')
           | (Inr vss, w'') \<Rightarrow> (Inr (vs # vss), w'')))"

section \<open>Loader combinators (match.ts, lines 100 to 103)\<close>

text \<open>
  A call of the loader that \<^verbatim>\<open>memoize\<close> wraps. The loader runs in its world until it returns
  or raises (\<open>Done\<close>, with the world it leaves), or until it calls the memoized closure
  itself (\<open>Reenter\<close>, with the world at that moment); it then goes on from what that call
  returned or raised and from the world that call left.
\<close>

datatype ('w, 'e, 'p) running =
  Done "'e + 'p" 'w
| Reenter 'w "'e + 'p \<Rightarrow> 'w \<Rightarrow> ('w, 'e, 'p) running"

text \<open>\<^verbatim>\<open>type Async<T> = () => PromiseLike<T>\<close>\<close>

type_synonym ('w, 'e, 'p) Async = "'w \<Rightarrow> ('w, 'e, 'p) running"

text \<open>A loader that never calls the closure back is a plain computation.\<close>

definition plain :: "('w, 'e, 'p) js \<Rightarrow> ('w, 'e, 'p) Async" where
  "plain ld = (\<lambda>w. case ld w of (r, w') \<Rightarrow> Done r w')"

text \<open>
  The closure that \<^verbatim>\<open>memoize(loader)\<close> returns runs in the variable \<^verbatim>\<open>promise\<close>, which starts
  undefined (\<^term>\<open>None\<close>), together with the world of the loader. A call may not return:
  its result is \<^term>\<open>None\<close> then.
\<close>

type_synonym ('w, 'e, 'p) memoized =
  "'p option \<times> 'w \<Rightarrow> (('e + 'p) \<times> ('p option \<times> 'w)) option"

text \<open>
  A run of the loader to its end, every call back being answered by \<open>call\<close>. The
  variable \<^verbatim>\<open>promise\<close> is threaded through: a call back may assign it.
\<close>

primrec finish ::
  "('w, 'e, 'p) memoized \<Rightarrow> ('w, 'e, 'p) running \<Rightarrow> 'p option \<Rightarrow>
   (('e + 'p) \<times> ('p option \<times> 'w)) option" where
  "finish call (Done r w) promise = Some (r, (promise, w))"
| "finish call (Reenter w k) promise =
     (case call (promise, w) of
        None \<Rightarrow> None
      | Some (r, (promise', w')) \<Rightarrow> finish call (k r w') promise')"

text \<open>
  A call of the closure, \<^verbatim>\<open>promise ||= loader()\<close>. A promise is an object, so it is never
  falsy: when the variable holds one, that is the result. Otherwise the loader is called;
  when it returns, its result is assigned to the variable (over whatever a call back has
  assigned meanwhile) and returned; when it raises, nothing is assigned. The number bounds
  how deep calls of the loader may nest through calls back, as the stack does: a call that
  would nest deeper does not return.
\<close>

primrec memoize :: "nat \<Rightarrow> ('w, 'e, 'p) Async \<Rightarrow> ('w, 'e, 'p) memoized" where
  "memoize 0 ld =
     (\<lambda>(promise, w). case promise of Some p \<Rightarrow> Some (Inr p, (Some p, w)) | None \<Rightarrow> None)"
| "memoize (Suc depth) ld =
     (\<lambda>(promise, w).
        case promise of
          Some p \<Rightarrow> Some (Inr p, (Some p, w))
        | None \<Rightarrow>
            (case finish (memoize depth ld) (ld w) None of
               None \<Rightarrow> None
             | Some (Inl e, st) \<Rightarrow> Some (Inl e, st)
             | Some (Inr p, (promise', w')) \<Rightarrow> Some (Inr p, (Some p, w'))))"

text \<open>
  What happens to a memoized loader over time: it is called, or something else runs and
  changes the world (a promise settles, other code runs); nothing else can reach the
  variable of the closure.
\<close>

datatype 'w event = Call | Elsewhere "'w \<Rightarrow> 'w"

fun run ::
  "nat \<Rightarrow> ('w, 'e, 'p) Async \<Rightarrow> 'w event list \<Rightarrow> 'p option \<times> 'w \<Rightarrow>
   (('e + 'p) list \<times> ('p option \<times> 'w)) option" where
  "run depth ld [] st = Some ([], st)"
| "run depth ld (Call # evs) st =
     (case memoize depth ld st of
        None \<Rightarrow> None
      | Some (r, st') \<Rightarrow>
          (case run depth ld evs st' of
             None \<Rightarrow> None
           | Some (rs, st'') \<Rightarrow> Some (r # rs, st'')))"
| "run depth ld (Elsewhere f # evs) (promise, w) = run depth ld evs (promise, f w)"

text \<open>The calls among the events, and what the other events do to a world.\<close>

fun calls :: "'w event list \<Rightarrow> nat" where
  "calls [] = 0"
| "calls (Call # evs) = Suc (calls evs)"
| "calls (Elsewhere f # evs) = calls evs"

fun elsewhere :: "'w event list \<Rightarrow> 'w \<Rightarrow> 'w" where
  "elsewhere [] w = w"
| "elsewhere (Call # evs) w = elsewhere evs w"
| "elsewhere (Elsewhere f # evs) w = elsewhere evs (f w)"

section \<open>Scores and example sources\<close>

text \<open>The score \<^verbatim>\<open>resolve\<close> compares, \<^verbatim>\<open>Math.abs(Number(v))\<close>, of a verdict \<open>v\<close>.\<close>

definition score_of :: "verdict \<Rightarrow> number" where
  "score_of v = js_abs (Number v)"

text \<open>
  Sources for the examples: a payload with the one field \<^verbatim>\<open>hello\<close>, a source whose loader
  returns its payload at once, and one whose loader returns a promise.
\<close>

definition hello :: "string \<Rightarrow> unit object" where
  "hello s = [StringKey ''hello'' \<mapsto> Text s]"

definition sync_source ::
  "string \<Rightarrow> ('w, 'e) Predicate \<Rightarrow> 'a object \<Rightarrow> ('w, 'e, 'a) Source" where
  "sync_source t p content =
     \<lparr>source_tag = t, predicate = p, loader = (\<lambda>w. (Inr (Now content), w))\<rparr>"

definition async_source ::
  "string \<Rightarrow> ('w, 'e) Predicate \<Rightarrow> ('e, 'a object) PromiseLike \<Rightarrow> ('w, 'e, 'a) Source" where
  "async_source t p promise =
     \<lparr>source_tag = t, predicate = p, loader = (\<lambda>w. (Inr (Later promise), w))\<rparr>"

text \<open>
  The resolver of the README and of the examples: English is the fallback, loaded at once;
  Chinese is loaded through a promise.
\<close>

definition readme_en_US :: "('w, 'e, unit) Source" where
  "readme_en_US =
     sync_source ''en-US'' (mean [startsWith ''en'', startsWith ''en-US'']) (hello ''Hello!'')"

definition readme_zh_CN :: "('w, 'e, unit) Source" where
  "readme_zh_CN =
     async_source ''zh-CN'' (mean [startsWith ''zh'', startsWith ''zh-CN''])
       (Promise 1 (Fulfills (hello ''Ni hao!'')))"

definition readme_i18n :: "('w, 'e, unit) Internationalization" where
  "readme_i18n = new_Internationalization readme_en_US [readme_zh_CN]"

text \<open>
  What the predicates of a list return for a tag when they are called in order from the
  world \<open>w\<close>, as \<^verbatim>\<open>reduce\<close> calls them in \<^verbatim>\<open>mean\<close>: their verdicts and the world they leave,
  or the first error raised.
\<close>

fun returns :: "('w, 'e) Predicate list \<Rightarrow> string \<Rightarrow> ('w, 'e, verdict list) js" where
  "returns [] c w = (Inr [], w)"
| "returns (p # ps) c w =
     (case p c w of
        (Inl e, w') \<Rightarrow> (Inl e, w')
      | (Inr v, w') \<Rightarrow>
          (case returns ps c w' of
             (Inl e, w'') \<Rightarrow> (Inl e, w'')
           | (Inr vs, w'') \<Rightarrow> (Inr (v # vs), w'')))"

text \<open>
  Specification: the arithmetic mean of a list of rationals, their sum over their count.
\<close>

definition arithmetic_mean :: "rat list \<Rightarrow> rat" where
  "arithmetic_mean xs = sum_list xs / of_nat (length xs)"

text \<open>
  The running sum of the numbers \<open>xs\<close> is exact when the sum of every prefix of \<open>xs\<close> is a
  double.
\<close>

definition exact_sums :: "rat list \<Rightarrow> bool" where
  "exact_sums xs \<longleftrightarrow>
     list_all (\<lambda>k. round_double (sum_list (take k xs)) = Some (sum_list (take k xs)))
       [0 ..< Suc (length xs)]"

text \<open>
  Two sources differ at most in the sign of their verdicts: the second is the first, or the
  first with its predicate wrapped in the library's \<^verbatim>\<open>weighted(-1, predicate)\<close>.
\<close>

definition sign_flipped :: "('w, 'e, 'a) Source \<Rightarrow> ('w, 'e, 'a) Source \<Rightarrow> bool" where
  "sign_flipped s s' \<longleftrightarrow>
     s' = s \<or> s' = s\<lparr>predicate := weighted (Fin (- 1)) (predicate s)\<rparr>"

text \<open>
  A source whose loader records its call in the world (the list of the tags loaded so far)
  and then returns or raises \<open>r\<close>.
\<close>

definition logging_source ::
  "string \<Rightarrow> (string list, 'e) Predicate \<Rightarrow> 'e + ('e, 'a object) loaded \<Rightarrow>
   (string list, 'e, 'a) Source" where
  "logging_source t p r = \<lparr>source_tag = t, predicate = p, loader = (\<lambda>log. (r, log @ [t]))\<rparr>"

text \<open>A loader that counts its calls in the world and then returns or raises \<open>r\<close>.\<close>

definition counting :: "'e + 'p \<Rightarrow> (nat, 'e, 'p) Async" where
  "counting r = plain (\<lambda>n. (r, Suc n))"

text \<open>
  A loader that counts its calls and, when it is called for the first time, calls the
  memoized closure, records the promise that call returned, and returns the promise \<open>p\<close>;
  called again, it returns the promise \<open>q\<close>:
  \<^verbatim>\<open>() => { n++; if (n > 1) return q; seen.push(m()); return p }\<close> with \<^verbatim>\<open>m\<close> the closure.
\<close>

definition reentering :: "'p \<Rightarrow> 'p \<Rightarrow> (nat \<times> 'p list, 'e, 'p) Async" where
  "reentering p q =
     (\<lambda>(n, seen).
        if n = 0 then
          Reenter (Suc n, seen)
            (\<lambda>r (n', seen').
               case r of
                 Inl e \<Rightarrow> Done (Inl e) (n', seen')
               | Inr x \<Rightarrow> Done (Inr p) (n', seen' @ [x]))
        else Done (Inr q) (Suc n, seen))"

text \<open>The regular expression \<^verbatim>\<open>/en/g\<close>, freshly created.\<close>

definition en_global :: RegExp where
  "en_global = \<lparr>matcher = literal ''en'', global = True, sticky = False, lastIndex = 0\<rparr>"

section \<open>The order of numbers\<close>

lemma js_gt_irrefl [simp]: "\<not> js_gt a a"
  by (cases a) (auto simp: js_gt_def)

lemma js_gt_trans: "js_gt a b \<Longrightarrow> js_gt b c \<Longrightarrow> js_gt a c"
  by (cases a; cases b; cases c) (auto simp: js_gt_def)

lemma js_gt_not_NaN: "js_gt a b \<Longrightarrow> a \<noteq> NaN \<and> b \<noteq> NaN"
  by (cases a; cases b) (auto simp: js_gt_def)

lemma js_gt_through: "js_gt a c \<Longrightarrow> \<not> js_gt a b \<Longrightarrow> b \<noteq> NaN \<Longrightarrow> js_gt b c"
  by (cases a; cases b; cases c) (auto simp: js_gt_def)

lemma js_abs_neg: "js_abs (js_neg x) = js_abs x"
  by (cases x) (auto simp: double_eq_iff double_rep)

lemma js_gt_abs_zero: "js_gt a (js_abs x) \<Longrightarrow> js_gt a (Fin 0)"
  by (cases a; cases x) (auto simp: js_gt_def double_rep)

text \<open>Rules with which \<open>simp\<close> evaluates the arithmetic on numerals.\<close>

lemmas number_eval = js_gt_def js_add_def js_mul_def js_div_def rounded_def num_def
  signed_zero_def inf_of_sign_def double_rep double_eq_iff round_double_eval

section \<open>Exact arithmetic\<close>

text \<open>What the arithmetic returns when its operands are finite.\<close>

lemma val_rounded:
  assumes "round_double x = Some y"
  shows "val (rounded x) = Some y"
  using assms by (simp add: rounded_def signed_zero_def double_rep)

lemma rounded_exact:
  assumes "round_double s = Some s"
  shows "val (rounded s) = Some s" and "negative (rounded s) = (s < 0)" and "rounded s \<noteq> NaN"
  using assms by (simp_all add: rounded_def signed_zero_def double_rep)

lemma rounded_double: "d \<noteq> 0 \<Longrightarrow> rounded (Rep_double d) = Fin d"
  using Rep_double [of d] by (simp add: rounded_def double_eq_iff double_rep)

lemma rounded_zero: "rounded 0 = Fin 0"
  by (simp add: rounded_def round_double_def signed_zero_def)

lemma js_add_rounded:
  assumes s: "round_double s = Some s" and n: "val n = Some x"
  shows "js_add (rounded s) n = rounded (s + x)"
proof -
  have nan: "n \<noteq> NaN" using n by auto
  show ?thesis
  proof (cases "s + x = 0")
    case True
    have "\<not> (negative (rounded s) \<and> negative n)"
    proof (cases "s < 0")
      case True
      then have "0 < x" using \<open>s + x = 0\<close> by simp
      then have "\<not> negative n"
        using n by (cases n) (auto simp: double_rep)
      then show ?thesis by simp
    next
      case False
      then show ?thesis by (simp add: rounded_exact(2) [OF s])
    qed
    then show ?thesis
      using True nan by (simp add: js_add_def rounded_exact [OF s] n rounded_zero signed_zero_def)
  next
    case False
    then show ?thesis
      using nan by (simp add: js_add_def rounded_exact [OF s] n)
  qed
qed

lemma foldl_js_add_rounded:
  assumes "map val ns = map Some xs"
    and "\<forall>k<length xs. round_double (s + sum_list (take k xs)) = Some (s + sum_list (take k xs))"
  shows "foldl js_add (rounded s) ns = rounded (s + sum_list xs)"
  using assms
proof (induction ns arbitrary: xs s)
  case Nil
  then show ?case by simp
next
  case (Cons n ns)
  from Cons.prems(1) obtain x xs' where xs: "xs = x # xs'" "val n = Some x"
    "map val ns = map Some xs'"
    by (cases xs) auto
  have s: "round_double s = Some s"
    using Cons.prems(2) [rule_format, of 0] xs(1) by simp
  have step: "\<forall>k<length xs'. round_double (s + x + sum_list (take k xs')) =
      Some (s + x + sum_list (take k xs'))"
  proof (intro allI impI)
    fix k assume "k < length xs'"
    then show "round_double (s + x + sum_list (take k xs')) = Some (s + x + sum_list (take k xs'))"
      using Cons.prems(2) [rule_format, of "Suc k"] xs(1) by (simp add: add.assoc)
  qed
  have "foldl js_add (rounded s) (n # ns) = foldl js_add (rounded (s + x)) ns"
    by (simp add: js_add_rounded [OF s xs(2)])
  also have "\<dots> = rounded (s + x + sum_list xs')"
    using xs(3) step by (rule Cons.IH)
  finally show ?case by (simp add: xs(1) add.assoc)
qed

lemma js_div_rounded:
  assumes s: "round_double s = Some s" and n: "round_double n = Some n" and "0 < n"
  shows "js_div (rounded s) (rounded n) = rounded (s / n)"
  using \<open>0 < n\<close>
  by (simp add: js_div_def rounded_exact [OF s] rounded_exact [OF n] rounded_zero signed_zero_def)

section \<open>The scan over sources and locales\<close>

lemma verdicts_Cons_Inr:
  assumes "verdicts (s # ss) l w = (Inr vs, w')"
  obtains v vs' w1 where "predicate s l w = (Inr v, w1)" "verdicts ss l w1 = (Inr vs', w')"
    "vs = v # vs'"
proof (cases "predicate s l w")
  case (Pair r w1)
  show ?thesis
  proof (cases r)
    case (Inl e)
    with Pair assms show ?thesis by simp
  next
    case (Inr v)
    show ?thesis
    proof (cases "verdicts ss l w1")
      case (Pair r2 w2)
      show ?thesis
      proof (cases r2)
        case (Inl e)
        with \<open>predicate s l w = (r, w1)\<close> \<open>r = Inr v\<close> Pair assms show ?thesis by simp
      next
        case (Inr vs')
        with \<open>predicate s l w = (r, w1)\<close> \<open>r = Inr v\<close> Pair assms that show ?thesis by simp
      qed
    qed
  qed
qed

lemma verdicts_length: "verdicts ss l w = (Inr vs, w') \<Longrightarrow> length vs = length ss"
proof (induction ss arbitrary: vs w)
  case Nil
  then show ?case by auto
next
  case (Cons s ss)
  from Cons.prems obtain v vs' w1 where "verdicts ss l w1 = (Inr vs', w')" "vs = v # vs'"
    by (rule verdicts_Cons_Inr)
  with Cons.IH show ?case by simp
qed

lemma scan_sources_verdicts:
  assumes "verdicts ss l w = (Inr vs, w')"
  shows "\<exists>m src. scan_sources ss l (m0, s0) w = (Inr (m, src), w') \<and>
           (m0 \<noteq> NaN \<longrightarrow> m \<noteq> NaN) \<and>
           ((m = m0 \<and> src = s0 \<and> (\<forall>j<length vs. \<not> js_gt (score_of (vs ! j)) m0)) \<or>
            (\<exists>k<length vs. src = ss ! k \<and> m = score_of (vs ! k) \<and> js_gt m m0 \<and>
               (\<forall>j<length vs. \<not> js_gt (score_of (vs ! j)) m) \<and>
               (\<forall>j<k. score_of (vs ! j) \<noteq> m)))"
  using assms
proof (induction ss arbitrary: vs w m0 s0)
  case Nil
  then show ?case by auto
next
  case (Cons s ss)
  from Cons.prems obtain v vs' w1 where
    p: "predicate s l w = (Inr v, w1)" and rest: "verdicts ss l w1 = (Inr vs', w')" and
    vs: "vs = v # vs'"
    by (rule verdicts_Cons_Inr)
  let ?c = "score_of v"
  have step: "scan_sources (s # ss) l (m0, s0) w =
      (if js_gt ?c m0 then scan_sources ss l (?c, s) w1 else scan_sources ss l (m0, s0) w1)"
    using p by (simp add: score_of_def Let_def)
  show ?case
  proof (cases "js_gt ?c m0")
    case True
    from Cons.IH [OF rest, of ?c s] obtain m src where
      run: "scan_sources ss l (?c, s) w1 = (Inr (m, src), w')" and
      nan: "?c \<noteq> NaN \<longrightarrow> m \<noteq> NaN" and
      alt: "(m = ?c \<and> src = s \<and> (\<forall>j<length vs'. \<not> js_gt (score_of (vs' ! j)) ?c)) \<or>
            (\<exists>k<length vs'. src = ss ! k \<and> m = score_of (vs' ! k) \<and> js_gt m ?c \<and>
               (\<forall>j<length vs'. \<not> js_gt (score_of (vs' ! j)) m) \<and>
               (\<forall>j<k. score_of (vs' ! j) \<noteq> m))"
      by blast
    have res: "scan_sources (s # ss) l (m0, s0) w = (Inr (m, src), w')"
      using step True run by simp
    have mnan: "m \<noteq> NaN" using nan True js_gt_not_NaN by blast
    from alt show ?thesis
    proof
      assume a: "m = ?c \<and> src = s \<and> (\<forall>j<length vs'. \<not> js_gt (score_of (vs' ! j)) ?c)"
      have "\<forall>j<length (v # vs'). \<not> js_gt (score_of ((v # vs') ! j)) m"
      proof (intro allI impI)
        fix j assume "j < length (v # vs')"
        then show "\<not> js_gt (score_of ((v # vs') ! j)) m"
          using a js_gt_irrefl by (cases j) auto
      qed
      then have "0 < length (v # vs') \<and> src = (s # ss) ! 0 \<and> m = score_of ((v # vs') ! 0) \<and>
          js_gt m m0 \<and> (\<forall>j<length (v # vs'). \<not> js_gt (score_of ((v # vs') ! j)) m) \<and>
          (\<forall>j<0. score_of ((v # vs') ! j) \<noteq> m)"
        using a True by simp
      then show ?thesis unfolding vs using res mnan by blast
    next
      assume "\<exists>k<length vs'. src = ss ! k \<and> m = score_of (vs' ! k) \<and> js_gt m ?c \<and>
               (\<forall>j<length vs'. \<not> js_gt (score_of (vs' ! j)) m) \<and>
               (\<forall>j<k. score_of (vs' ! j) \<noteq> m)"
      then obtain k where k: "k < length vs'" "src = ss ! k" "m = score_of (vs' ! k)"
        "js_gt m ?c" "\<forall>j<length vs'. \<not> js_gt (score_of (vs' ! j)) m"
        "\<forall>j<k. score_of (vs' ! j) \<noteq> m"
        by blast
      have gt0: "js_gt m m0" using k(4) True js_gt_trans by blast
      have hd: "\<not> js_gt ?c m" "?c \<noteq> m"
        using k(4) js_gt_trans js_gt_irrefl by blast+
      have all: "\<forall>j<length (v # vs'). \<not> js_gt (score_of ((v # vs') ! j)) m"
      proof (intro allI impI)
        fix j assume "j < length (v # vs')"
        then show "\<not> js_gt (score_of ((v # vs') ! j)) m"
          using k(5) hd by (cases j) auto
      qed
      have before: "\<forall>j<Suc k. score_of ((v # vs') ! j) \<noteq> m"
      proof (intro allI impI)
        fix j assume "j < Suc k"
        then show "score_of ((v # vs') ! j) \<noteq> m"
          using k(6) hd by (cases j) auto
      qed
      have "Suc k < length (v # vs') \<and> src = (s # ss) ! Suc k \<and>
          m = score_of ((v # vs') ! Suc k) \<and> js_gt m m0 \<and>
          (\<forall>j<length (v # vs'). \<not> js_gt (score_of ((v # vs') ! j)) m) \<and>
          (\<forall>j<Suc k. score_of ((v # vs') ! j) \<noteq> m)"
        using k(1,2,3) gt0 all before by simp
      then show ?thesis unfolding vs using res mnan by blast
    qed
  next
    case False
    from Cons.IH [OF rest, of m0 s0] obtain m src where
      run: "scan_sources ss l (m0, s0) w1 = (Inr (m, src), w')" and
      nan: "m0 \<noteq> NaN \<longrightarrow> m \<noteq> NaN" and
      alt: "(m = m0 \<and> src = s0 \<and> (\<forall>j<length vs'. \<not> js_gt (score_of (vs' ! j)) m0)) \<or>
            (\<exists>k<length vs'. src = ss ! k \<and> m = score_of (vs' ! k) \<and> js_gt m m0 \<and>
               (\<forall>j<length vs'. \<not> js_gt (score_of (vs' ! j)) m) \<and>
               (\<forall>j<k. score_of (vs' ! j) \<noteq> m))"
      by blast
    have res: "scan_sources (s # ss) l (m0, s0) w = (Inr (m, src), w')"
      using step False run by simp
    from alt show ?thesis
    proof
      assume a: "m = m0 \<and> src = s0 \<and> (\<forall>j<length vs'. \<not> js_gt (score_of (vs' ! j)) m0)"
      have "\<forall>j<length (v # vs'). \<not> js_gt (score_of ((v # vs') ! j)) m0"
      proof (intro allI impI)
        fix j assume "j < length (v # vs')"
        then show "\<not> js_gt (score_of ((v # vs') ! j)) m0"
          using a False by (cases j) auto
      qed
      then show ?thesis unfolding vs using res nan a by blast
    next
      assume "\<exists>k<length vs'. src = ss ! k \<and> m = score_of (vs' ! k) \<and> js_gt m m0 \<and>
               (\<forall>j<length vs'. \<not> js_gt (score_of (vs' ! j)) m) \<and>
               (\<forall>j<k. score_of (vs' ! j) \<noteq> m)"
      then obtain k where k: "k < length vs'" "src = ss ! k" "m = score_of (vs' ! k)"
        "js_gt m m0" "\<forall>j<length vs'. \<not> js_gt (score_of (vs' ! j)) m"
        "\<forall>j<k. score_of (vs' ! j) \<noteq> m"
        by blast
      have hd: "\<not> js_gt ?c m" "?c \<noteq> m"
        using k(4) False js_gt_trans by blast+
      have all: "\<forall>j<length (v # vs'). \<not> js_gt (score_of ((v # vs') ! j)) m"
      proof (intro allI impI)
        fix j assume "j < length (v # vs')"
        then show "\<not> js_gt (score_of ((v # vs') ! j)) m"
          using k(5) hd by (cases j) auto
      qed
      have before: "\<forall>j<Suc k. score_of ((v # vs') ! j) \<noteq> m"
      proof (intro allI impI)
        fix j assume "j < Suc k"
        then show "score_of ((v # vs') ! j) \<noteq> m"
          using k(6) hd by (cases j) auto
      qed
      have "Suc k < length (v # vs') \<and> src = (s # ss) ! Suc k \<and>
          m = score_of ((v # vs') ! Suc k) \<and> js_gt m m0 \<and>
          (\<forall>j<length (v # vs'). \<not> js_gt (score_of ((v # vs') ! j)) m) \<and>
          (\<forall>j<Suc k. score_of ((v # vs') ! j) \<noteq> m)"
        using k(1,2,3,4) all before by simp
      then show ?thesis unfolding vs using res nan by blast
    qed
  qed
qed

lemma scan_sources_verdicts_positive:
  assumes vs: "verdicts ss l w = (Inr vs, w')"
    and "m0 \<noteq> NaN" and "v \<in> set vs" and "js_gt (score_of v) (Fin 0)"
    and "scan_sources ss l (m0, s0) w = (Inr (m, src), w'')"
  shows "js_gt m (Fin 0)"
proof -
  from assms(3) obtain j where j: "j < length vs" "vs ! j = v"
    by (auto simp: in_set_conv_nth)
  from scan_sources_verdicts [OF vs, of m0 s0] assms(5)
  have nan: "m \<noteq> NaN" and top: "\<not> js_gt (score_of v) m"
    using assms(2) j by (auto dest: js_gt_trans)
  show ?thesis using assms(4) top nan by (rule js_gt_through)
qed

lemma scan_sources_verdicts_raise:
  assumes "verdicts pre l w = (Inr vs, w1)" and "predicate s l w1 = (Inl e, w')"
  shows "scan_sources (pre @ s # post) l best w = (Inl e, w')"
  using assms(1)
proof (induction pre arbitrary: vs w best)
  case Nil
  then have "w1 = w" by simp
  then show ?case using assms(2) by (cases best) simp
next
  case (Cons p pre)
  from Cons.prems obtain v vs' w0 where
    p: "predicate p l w = (Inr v, w0)" and rest: "verdicts pre l w0 = (Inr vs', w1)"
    by (rule verdicts_Cons_Inr)
  obtain m src where best: "best = (m, src)" by (cases best)
  show ?case
    using p Cons.IH [OF rest] by (simp add: best Let_def)
qed

lemma scan_locales_append:
  assumes "scan_locales ss pre best w = (Inr best', w')" and "\<not> js_gt (fst best') (Fin 0)"
  shows "scan_locales ss (pre @ post) best w = scan_locales ss post best' w'"
  using assms(1)
proof (induction pre arbitrary: best w)
  case Nil
  then show ?case by simp
next
  case (Cons l pre)
  show ?case
  proof (cases "scan_sources ss l best w")
    case (Pair r w1)
    show ?thesis
    proof (cases r)
      case (Inl e)
      with Pair Cons.prems show ?thesis by simp
    next
      case (Inr b)
      obtain m1 s1 where b: "b = (m1, s1)" by (cases b)
      show ?thesis
      proof (cases "js_gt m1 (Fin 0)")
        case True
        then have "best' = (m1, s1)" using Pair Inr b Cons.prems by simp
        then show ?thesis using True assms(2) by simp
      next
        case False
        then have "scan_locales ss pre (m1, s1) w1 = (Inr best', w')"
          using Pair Inr b Cons.prems by simp
        from Cons.IH [OF this] show ?thesis using Pair Inr b False by simp
      qed
    qed
  qed
qed

lemma verdicts_all_Cons_Inr:
  assumes "verdicts_all ss (l # ls) w = (Inr vss, w')"
  obtains vs vss' w1 where "verdicts ss l w = (Inr vs, w1)" "verdicts_all ss ls w1 = (Inr vss', w')"
    "vss = vs # vss'"
proof (cases "verdicts ss l w")
  case (Pair r w1)
  show ?thesis
  proof (cases r)
    case (Inl e)
    with Pair assms show ?thesis by simp
  next
    case (Inr vs)
    show ?thesis
    proof (cases "verdicts_all ss ls w1")
      case (Pair r2 w2)
      show ?thesis
      proof (cases r2)
        case (Inl e)
        with \<open>verdicts ss l w = (r, w1)\<close> \<open>r = Inr vs\<close> Pair assms show ?thesis by simp
      next
        case (Inr vss')
        with \<open>verdicts ss l w = (r, w1)\<close> \<open>r = Inr vs\<close> Pair assms that show ?thesis by simp
      qed
    qed
  qed
qed

lemma scan_locales_none:
  assumes "verdicts_all ss ls w = (Inr vss, w')"
    and "\<forall>vs\<in>set vss. \<forall>v\<in>set vs. \<not> js_gt (score_of v) (Fin 0)"
  shows "scan_locales ss ls (Fin 0, s0) w = (Inr (Fin 0, s0), w')"
  using assms
proof (induction ls arbitrary: vss w)
  case Nil
  then show ?case by simp
next
  case (Cons l ls)
  from Cons.prems(1) obtain vs vss' w1 where
    one: "verdicts ss l w = (Inr vs, w1)" and rest: "verdicts_all ss ls w1 = (Inr vss', w')" and
    vss: "vss = vs # vss'"
    by (rule verdicts_all_Cons_Inr)
  have "\<forall>j<length vs. \<not> js_gt (score_of (vs ! j)) (Fin 0)"
    using Cons.prems(2) vss by simp
  with scan_sources_verdicts [OF one, of "Fin 0" s0]
  have "scan_sources ss l (Fin 0, s0) w = (Inr (Fin 0, s0), w1)"
    by auto
  moreover have "scan_locales ss ls (Fin 0, s0) w1 = (Inr (Fin 0, s0), w')"
    using Cons.IH [OF rest] Cons.prems(2) vss by simp
  ultimately show ?case by simp
qed

lemma scan_one_locale:
  assumes vs: "verdicts (fb # others) l w = (Inr vs, w')"
  shows "\<exists>k m. k < length vs \<and>
           scan_locales (fb # others) [l] (Fin 0, fb) w = (Inr (m, (fb # others) ! k), w') \<and>
           ((\<exists>v\<in>set vs. js_gt (score_of v) (Fin 0)) \<longrightarrow> js_gt m (Fin 0)) \<and>
           (\<forall>v\<in>set vs. \<not> js_gt (score_of v) (score_of (vs ! k))) \<and>
           (\<forall>v\<in>set (take k vs). score_of v \<noteq> score_of (vs ! k))"
proof -
  have len: "0 < length vs" using verdicts_length [OF vs] by simp
  from scan_sources_verdicts [OF vs, of "Fin 0" fb] obtain m src where
    run: "scan_sources (fb # others) l (Fin 0, fb) w = (Inr (m, src), w')" and
    alt: "(m = Fin 0 \<and> src = fb \<and> (\<forall>n<length vs. \<not> js_gt (score_of (vs ! n)) (Fin 0))) \<or>
          (\<exists>k<length vs. src = (fb # others) ! k \<and> m = score_of (vs ! k) \<and> js_gt m (Fin 0) \<and>
             (\<forall>n<length vs. \<not> js_gt (score_of (vs ! n)) m) \<and>
             (\<forall>n<k. score_of (vs ! n) \<noteq> m))"
    by blast
  have sel: "scan_locales (fb # others) [l] (Fin 0, fb) w = (Inr (m, src), w')"
    using run by (simp split: if_splits)
  have pos: "js_gt m (Fin 0)" if "\<exists>v\<in>set vs. js_gt (score_of v) (Fin 0)"
    using that scan_sources_verdicts_positive [OF vs _ _ _ run] by blast
  from alt show ?thesis
  proof
    assume a: "m = Fin 0 \<and> src = fb \<and> (\<forall>n<length vs. \<not> js_gt (score_of (vs ! n)) (Fin 0))"
    have "\<forall>v\<in>set vs. \<not> js_gt (score_of v) (score_of (vs ! 0))"
    proof
      fix v assume "v \<in> set vs"
      then obtain n where "n < length vs" "vs ! n = v" by (auto simp: in_set_conv_nth)
      then have "\<not> js_gt (score_of v) (Fin 0)" using a by auto
      then show "\<not> js_gt (score_of v) (score_of (vs ! 0))"
        using js_gt_abs_zero [of "score_of v" "Number (vs ! 0)"] by (auto simp: score_of_def)
    qed
    moreover have "\<forall>v\<in>set (take 0 vs). score_of v \<noteq> score_of (vs ! 0)"
      by simp
    moreover have "src = (fb # others) ! 0"
      using a by simp
    ultimately show ?thesis using len sel pos by blast
  next
    assume "\<exists>k<length vs. src = (fb # others) ! k \<and> m = score_of (vs ! k) \<and> js_gt m (Fin 0) \<and>
             (\<forall>n<length vs. \<not> js_gt (score_of (vs ! n)) m) \<and>
             (\<forall>n<k. score_of (vs ! n) \<noteq> m)"
    then obtain k where k: "k < length vs" "src = (fb # others) ! k" "m = score_of (vs ! k)"
      "\<forall>n<length vs. \<not> js_gt (score_of (vs ! n)) m" "\<forall>n<k. score_of (vs ! n) \<noteq> m"
      by blast
    have "\<forall>v\<in>set vs. \<not> js_gt (score_of v) (score_of (vs ! k))"
      using k(3,4) by (auto simp: in_set_conv_nth)
    moreover have "\<forall>v\<in>set (take k vs). score_of v \<noteq> score_of (vs ! k)"
      using k(1,3,5) by (auto simp: in_set_conv_nth)
    ultimately show ?thesis using k(1,2) sel pos by blast
  qed
qed

lemma scan_locales_break:
  assumes "\<not> js_gt (fst best) (Fin 0)"
    and "scan_locales ss pre best w = (Inr (m, src), w')" and "js_gt m (Fin 0)"
  shows "scan_locales ss (pre @ post) best w = (Inr (m, src), w')"
  using assms
proof (induction pre arbitrary: best w)
  case Nil
  then show ?case by simp
next
  case (Cons l pre)
  show ?case
  proof (cases "scan_sources ss l best w")
    case (Pair r w1)
    show ?thesis
    proof (cases r)
      case (Inl e)
      with Pair Cons.prems(2) show ?thesis by simp
    next
      case (Inr b)
      obtain m1 s1 where b: "b = (m1, s1)" by (cases b)
      show ?thesis
      proof (cases "js_gt m1 (Fin 0)")
        case True
        with Pair Inr b Cons.prems(2) show ?thesis by simp
      next
        case False
        then have "scan_locales ss pre (m1, s1) w1 = (Inr (m, src), w')"
          using Pair Inr b Cons.prems(2) by simp
        then have "scan_locales ss (pre @ post) (m1, s1) w1 = (Inr (m, src), w')"
          using Cons.IH [of "(m1, s1)" w1] False Cons.prems(3) by simp
        then show ?thesis using Pair Inr b False by simp
      qed
    qed
  qed
qed

lemma scan_locales_raise:
  assumes "scan_locales ss pre best w = (Inl e, w')"
  shows "scan_locales ss (pre @ post) best w = (Inl e, w')"
  using assms
proof (induction pre arbitrary: best w)
  case Nil
  then show ?case by simp
next
  case (Cons l pre)
  show ?case
  proof (cases "scan_sources ss l best w")
    case (Pair r w1)
    show ?thesis
    proof (cases r)
      case (Inl e1)
      with Pair Cons.prems show ?thesis by simp
    next
      case (Inr b)
      obtain m1 s1 where b: "b = (m1, s1)" by (cases b)
      show ?thesis
      proof (cases "js_gt m1 (Fin 0)")
        case True
        with Pair Inr b Cons.prems show ?thesis by simp
      next
        case False
        then have "scan_locales ss pre (m1, s1) w1 = (Inl e, w')"
          using Pair Inr b Cons.prems by simp
        then have "scan_locales ss (pre @ post) (m1, s1) w1 = (Inl e, w')"
          using Cons.IH [of "(m1, s1)" w1] by simp
        then show ?thesis using Pair Inr b False by simp
      qed
    qed
  qed
qed

lemma scan_sources_error_origin:
  "scan_sources ss l best w = (Inl e, w') \<Longrightarrow> \<exists>s\<in>set ss. \<exists>w0. predicate s l w0 = (Inl e, w')"
proof (induction ss arbitrary: best w)
  case Nil
  then show ?case by (cases best) simp
next
  case (Cons s ss)
  obtain m src where best: "best = (m, src)" by (cases best)
  show ?case
  proof (cases "predicate s l w")
    case (Pair r w1)
    show ?thesis
    proof (cases r)
      case (Inl e1)
      then have "predicate s l w = (Inl e, w')"
        using Pair Cons.prems best by simp
      then show ?thesis by auto
    next
      case (Inr v)
      show ?thesis
      proof (cases "js_gt (js_abs (Number v)) m")
        case True
        then have "scan_sources ss l (js_abs (Number v), s) w1 = (Inl e, w')"
          using Pair Inr Cons.prems best by (simp add: Let_def)
        from Cons.IH [OF this] show ?thesis by auto
      next
        case False
        then have "scan_sources ss l (m, src) w1 = (Inl e, w')"
          using Pair Inr Cons.prems best by (simp add: Let_def)
        from Cons.IH [OF this] show ?thesis by auto
      qed
    qed
  qed
qed

lemma scan_locales_error_origin:
  "scan_locales ss ls best w = (Inl e, w') \<Longrightarrow>
   \<exists>s\<in>set ss. \<exists>l\<in>set ls. \<exists>w0. predicate s l w0 = (Inl e, w')"
proof (induction ls arbitrary: best w)
  case Nil
  then show ?case by simp
next
  case (Cons l ls)
  show ?case
  proof (cases "scan_sources ss l best w")
    case (Pair r w1)
    show ?thesis
    proof (cases r)
      case (Inl e1)
      with Pair Cons.prems have "scan_sources ss l best w = (Inl e, w')" by simp
      from scan_sources_error_origin [OF this] show ?thesis by auto
    next
      case (Inr b)
      obtain m1 s1 where b: "b = (m1, s1)" by (cases b)
      have "\<not> js_gt m1 (Fin 0)"
        using Pair Inr b Cons.prems by auto
      then have "scan_locales ss ls (m1, s1) w1 = (Inl e, w')"
        using Pair Inr b Cons.prems by simp
      from Cons.IH [OF this] show ?thesis by auto
    qed
  qed
qed

lemma select_single:
  "select (new_Internationalization fb others) ls w = scan_locales (fb # others) ls (Fin 0, fb) w"
  by (simp add: select_def new_Internationalization_def)

section \<open>Selection\<close>

text \<open>
  C1. One locale is asked for, and the predicates of the sources (the fallback first, then
  the others in registration order) return the verdicts \<open>vs\<close> for it. If the sources at
  positions \<open>i < j\<close> have equal scores, the source \<^verbatim>\<open>resolve\<close> selects and loads is at a
  position \<open>k\<close> other than \<open>j\<close>: no source has a greater score than the one at \<open>k\<close>, and
  no source registered before \<open>k\<close> has the same score. So among sources that tie, the one
  registered first wins; position 0, the fallback, wins when no score is positive.
\<close>

theorem resolve_tie_earlier_source_wins:
  assumes vs: "verdicts (fb # others) l w = (Inr vs, w')"
    and ij: "i < j" "j < length vs"
    and tie: "score_of (vs ! i) = score_of (vs ! j)"
  shows "\<exists>k m. k < length vs \<and> k \<noteq> j \<and>
           select (new_Internationalization fb others) [l] w = (Inr (m, (fb # others) ! k), w') \<and>
           resolve (new_Internationalization fb others) [l] w = deliver ((fb # others) ! k) w' \<and>
           (\<forall>v\<in>set vs. \<not> js_gt (score_of v) (score_of (vs ! k))) \<and>
           (\<forall>v\<in>set (take k vs). score_of v \<noteq> score_of (vs ! k))"
proof -
  let ?i18n = "new_Internationalization fb others"
  from scan_one_locale [OF vs] obtain k m where
    k: "k < length vs" and
    run: "scan_locales (fb # others) [l] (Fin 0, fb) w = (Inr (m, (fb # others) ! k), w')" and
    top: "\<forall>v\<in>set vs. \<not> js_gt (score_of v) (score_of (vs ! k))" and
    fst: "\<forall>v\<in>set (take k vs). score_of v \<noteq> score_of (vs ! k)"
    by blast
  have sel: "select ?i18n [l] w = (Inr (m, (fb # others) ! k), w')"
    using run by (simp only: select_single)
  have res: "resolve ?i18n [l] w = deliver ((fb # others) ! k) w'"
    using sel by (simp add: resolve_def)
  have "k \<noteq> j"
  proof
    assume "k = j"
    then have "vs ! i \<in> set (take k vs)"
      using ij by (auto simp: in_set_conv_nth)
    then show False using fst tie \<open>k = j\<close> by auto
  qed
  then show ?thesis using k sel res top fst by blast
qed

theorem resolve_tie_earlier_source_wins_witness:
  "resolve (new_Internationalization
      (sync_source ''zh-CN'' (startsWith ''zh'') (hello ''Ni hao!''))
      [sync_source ''en-US'' (startsWith ''en'') (hello ''Hello!''),
       sync_source ''en-GB'' (startsWith ''en'') (hello ''Hello, mate!'')])
     [''en-AU''] () =
   (Fulfills (tag (hello ''Hello!'') (Text ''en-US'')) :: (unit, unit object) settlement, ())"
proof -
  let ?fb = "sync_source ''zh-CN'' (startsWith ''zh'') (hello ''Ni hao!'') :: (unit, unit, unit) Source"
  let ?us = "sync_source ''en-US'' (startsWith ''en'') (hello ''Hello!'') :: (unit, unit, unit) Source"
  let ?gb = "sync_source ''en-GB'' (startsWith ''en'') (hello ''Hello, mate!'') :: (unit, unit, unit) Source"
  let ?vs = "[Boolean False, Boolean True, Boolean True]"
  have vs: "verdicts (?fb # [?us, ?gb]) ''en-AU'' () = (Inr ?vs, ())"
    by (simp add: sync_source_def startsWith_def)
  have i: "(1::nat) < 2" by simp
  have j: "2 < length ?vs" by simp
  have tie: "score_of (?vs ! 1) = score_of (?vs ! 2)" by simp
  from resolve_tie_earlier_source_wins [OF vs i j tie]
  obtain k where k: "k < length ?vs" "k \<noteq> 2"
    "resolve (new_Internationalization ?fb [?us, ?gb]) [''en-AU''] () = deliver ((?fb # [?us, ?gb]) ! k) ()"
    "\<forall>v\<in>set ?vs. \<not> js_gt (score_of v) (score_of (?vs ! k))"
    by blast
  have "k \<noteq> 0"
  proof
    assume "k = 0"
    with k(4) show False by (simp add: score_of_def number_eval)
  qed
  with k(1,2) have "k = 1" by simp
  with k(3) show ?thesis
    by (simp add: deliver_def sync_source_def)
qed

text \<open>
  C2. Let position \<open>i\<close> be the first of the preference list with a positive score: the
  predicates return verdicts without a positive score for the locales before it, and the
  verdicts \<open>vs\<close>, one of them with a positive score, for the locale at \<open>i\<close>. Then every
  list that agrees with this one up to position \<open>i\<close> selects the same source with the same
  \<^verbatim>\<open>max\<close> and resolves to the same result, whatever a later locale would score; the source
  selected is the earliest of those with the greatest score among \<open>vs\<close>, and no predicate
  is called after those for position \<open>i\<close>.
\<close>

theorem resolve_first_positive_locale_wins:
  assumes before: "verdicts_all (fb # others) (take i ls) w = (Inr vss, w1)"
      "\<forall>vs\<in>set vss. \<forall>v\<in>set vs. \<not> js_gt (score_of v) (Fin 0)"
    and i: "i < length ls"
    and at: "verdicts (fb # others) (ls ! i) w1 = (Inr vs, w2)"
      "\<exists>v\<in>set vs. js_gt (score_of v) (Fin 0)"
    and same: "take (Suc i) ls' = take (Suc i) ls"
  shows "select (new_Internationalization fb others) ls' w =
           select (new_Internationalization fb others) ls w \<and>
         resolve (new_Internationalization fb others) ls' w =
           resolve (new_Internationalization fb others) ls w \<and>
         (\<exists>k m. k < length vs \<and>
            select (new_Internationalization fb others) ls w = (Inr (m, (fb # others) ! k), w2) \<and>
            (\<forall>v\<in>set vs. \<not> js_gt (score_of v) (score_of (vs ! k))) \<and>
            (\<forall>v\<in>set (take k vs). score_of v \<noteq> score_of (vs ! k)))"
proof -
  let ?i18n = "new_Internationalization fb others"
  let ?ss = "fb # others"
  let ?pre = "take (Suc i) ls"
  have first: "scan_locales ?ss (take i ls) (Fin 0, fb) w = (Inr (Fin 0, fb), w1)"
    using before by (rule scan_locales_none)
  from scan_one_locale [OF at(1)] at(2) obtain k m where
    k: "k < length vs" and
    run: "scan_locales ?ss [ls ! i] (Fin 0, fb) w1 = (Inr (m, ?ss ! k), w2)" and
    gt: "js_gt m (Fin 0)" and
    top: "\<forall>v\<in>set vs. \<not> js_gt (score_of v) (score_of (vs ! k))" and
    fst: "\<forall>v\<in>set (take k vs). score_of v \<noteq> score_of (vs ! k)"
    by blast
  have "scan_locales ?ss (take i ls @ [ls ! i]) (Fin 0, fb) w =
        scan_locales ?ss [ls ! i] (Fin 0, fb) w1"
    using first by (rule scan_locales_append) simp
  then have pre: "scan_locales ?ss ?pre (Fin 0, fb) w = (Inr (m, ?ss ! k), w2)"
    using run i by (simp add: take_Suc_conv_app_nth)
  have cut: "scan_locales ?ss (?pre @ post) (Fin 0, fb) w = (Inr (m, ?ss ! k), w2)" for post
    using scan_locales_break [OF _ pre gt] by simp
  have "ls = ?pre @ drop (Suc i) ls" by simp
  then have a: "select ?i18n ls w = (Inr (m, ?ss ! k), w2)"
    using cut [of "drop (Suc i) ls"] by (simp add: select_single)
  have "ls' = ?pre @ drop (Suc i) ls'"
    using same append_take_drop_id [of "Suc i" ls'] by simp
  then have b: "select ?i18n ls' w = (Inr (m, ?ss ! k), w2)"
    using cut [of "drop (Suc i) ls'"] by (simp add: select_single)
  have "resolve ?i18n ls' w = resolve ?i18n ls w"
    using a b by (simp add: resolve_def)
  then show ?thesis using a b k top fst by auto
qed

lemma readme_resolve_fr_en:
  "resolve readme_i18n [''fr'', ''en''] () =
     (Fulfills (tag (hello ''Hello!'') (Text ''en-US'')) :: (unit, unit object) settlement, ())"
  by (simp add: resolve_def select_def readme_i18n_def new_Internationalization_def
      readme_en_US_def readme_zh_CN_def sync_source_def async_source_def mean_def startsWith_def
      deliver_def number_eval)

theorem resolve_first_positive_locale_wins_witness:
  "resolve readme_i18n [''fr'', ''en'', ''zh-CN''] () =
     (Fulfills (tag (hello ''Hello!'') (Text ''en-US'')) :: (unit, unit object) settlement, ())"
proof -
  let ?en = "readme_en_US :: (unit, unit, unit) Source"
  let ?zh = "readme_zh_CN :: (unit, unit, unit) Source"
  have before: "verdicts_all (?en # [?zh]) (take 1 [''fr'', ''en'']) () =
      (Inr [[Numeric (Fin 0), Numeric (Fin 0)]], ())"
    by (simp add: readme_en_US_def readme_zh_CN_def sync_source_def async_source_def mean_def
        startsWith_def number_eval)
  have none: "\<forall>vs\<in>set [[Numeric (Fin 0), Numeric (Fin 0)]]. \<forall>v\<in>set vs. \<not> js_gt (score_of v) (Fin 0)"
    by (simp add: score_of_def number_eval)
  have i: "1 < length [''fr'', ''en'']" by simp
  have at: "verdicts (?en # [?zh]) ([''fr'', ''en''] ! 1) () =
      (Inr [Numeric (num (1 / 2)), Numeric (Fin 0)], ())"
    by (simp add: readme_en_US_def readme_zh_CN_def sync_source_def async_source_def mean_def
        startsWith_def number_eval)
  have pos: "\<exists>v\<in>set [Numeric (num (1 / 2)), Numeric (Fin 0)]. js_gt (score_of v) (Fin 0)"
    by (simp add: score_of_def number_eval)
  have same: "take (Suc 1) [''fr'', ''en'', ''zh-CN''] = take (Suc 1) [''fr'', ''en'']" by simp
  from resolve_first_positive_locale_wins [OF before none i at pos same]
  have "resolve readme_i18n [''fr'', ''en'', ''zh-CN''] () =
        (resolve readme_i18n [''fr'', ''en''] () :: (unit, unit object) settlement \<times> unit)"
    by (simp add: readme_i18n_def)
  then show ?thesis by (simp only: readme_resolve_fr_en)
qed

text \<open>
  What a key reads in a tagged object: the tag at the key \<^term>\<open>Tag\<close>, nothing at the string
  key \<^verbatim>\<open>__proto__\<close>, and what it reads in the payload at every other key.
\<close>

lemma tag_reads:
  "tag t v k = (if k = Tag then Some v else if k = StringKey ''__proto__'' then None else t k)"
  by (simp add: tag_def Object_assign_def assign_from_def Tag_def map_add_def restrict_map_def)

text \<open>
  C3. For an empty preference list \<^verbatim>\<open>resolve\<close> is the load of the fallback. More generally,
  if the predicates return, for every listed locale, verdicts none of which has a positive
  score (the score is 0, or NaN), the selection ends at the fallback with \<^verbatim>\<open>max = 0\<close> and
  \<^verbatim>\<open>resolve\<close> is the load of the fallback. When the fallback's loader returns the payload
  \<open>t\<close>, or a promise fulfilled with \<open>t\<close>, the result is fulfilled with the object
  \<open>tag t\<close> of the fallback's tag: it reads the fallback's tag at the key \<^term>\<open>Tag\<close>, and
  every string key other than \<^verbatim>\<open>__proto__\<close> reads in it what it reads in \<open>t\<close>.
\<close>

theorem resolve_no_match_gives_fallback:
  "resolve (new_Internationalization fb others) [] w = deliver fb w \<and>
   (verdicts_all (fb # others) ls w = (Inr vss, w') \<and>
    (\<forall>vs\<in>set vss. \<forall>v\<in>set vs. \<not> js_gt (score_of v) (Fin 0)) \<longrightarrow>
      select (new_Internationalization fb others) ls w = (Inr (Fin 0, fb), w') \<and>
      resolve (new_Internationalization fb others) ls w = deliver fb w' \<and>
      (\<forall>x t w''. loader fb w' = (Inr x, w'') \<and> await x = Fulfills t \<longrightarrow>
         (\<exists>r. resolve (new_Internationalization fb others) ls w = (Fulfills r, w'') \<and>
              r = tag t (Text (source_tag fb)) \<and>
              r Tag = Some (Text (source_tag fb)) \<and>
              (\<forall>s. s \<noteq> ''__proto__'' \<longrightarrow> r (StringKey s) = t (StringKey s)))))"
proof (intro conjI impI)
  show "resolve (new_Internationalization fb others) [] w = deliver fb w"
    by (simp add: resolve_def select_single)
next
  let ?i18n = "new_Internationalization fb others"
  assume a: "verdicts_all (fb # others) ls w = (Inr vss, w') \<and>
    (\<forall>vs\<in>set vss. \<forall>v\<in>set vs. \<not> js_gt (score_of v) (Fin 0))"
  then have "scan_locales (fb # others) ls (Fin 0, fb) w = (Inr (Fin 0, fb), w')"
    using scan_locales_none [of "fb # others" ls w vss w' fb] by blast
  then show sel: "select ?i18n ls w = (Inr (Fin 0, fb), w')"
    by (simp only: select_single)
  then show res: "resolve ?i18n ls w = deliver fb w'"
    by (simp add: resolve_def)
  show "\<forall>x t w''. loader fb w' = (Inr x, w'') \<and> await x = Fulfills t \<longrightarrow>
         (\<exists>r. resolve ?i18n ls w = (Fulfills r, w'') \<and>
              r = tag t (Text (source_tag fb)) \<and>
              r Tag = Some (Text (source_tag fb)) \<and>
              (\<forall>s. s \<noteq> ''__proto__'' \<longrightarrow> r (StringKey s) = t (StringKey s)))"
  proof (intro allI impI)
    fix x t w''
    assume ld: "loader fb w' = (Inr x, w'') \<and> await x = Fulfills t"
    have "resolve ?i18n ls w = (Fulfills (tag t (Text (source_tag fb))), w'')"
      using res ld by (simp add: deliver_def)
    moreover have "tag t (Text (source_tag fb)) Tag = Some (Text (source_tag fb))"
      by (simp add: tag_reads)
    moreover have "\<forall>s. s \<noteq> ''__proto__'' \<longrightarrow>
        tag t (Text (source_tag fb)) (StringKey s) = t (StringKey s)"
      by (simp add: tag_reads Tag_def)
    ultimately show "\<exists>r. resolve ?i18n ls w = (Fulfills r, w'') \<and>
              r = tag t (Text (source_tag fb)) \<and>
              r Tag = Some (Text (source_tag fb)) \<and>
              (\<forall>s. s \<noteq> ''__proto__'' \<longrightarrow> r (StringKey s) = t (StringKey s))"
      by blast
  qed
qed

theorem resolve_no_match_gives_fallback_witness:
  "resolve readme_i18n [] () =
     (Fulfills (tag (hello ''Hello!'') (Text ''en-US'')) :: (unit, unit object) settlement, ()) \<and>
   (\<exists>r. resolve readme_i18n [''fr-FR'', ''de''] () =
           (Fulfills r :: (unit, unit object) settlement, ()) \<and>
         r Tag = Some (Text ''en-US'') \<and> r (StringKey ''hello'') = Some (Text ''Hello!''))"
proof -
  let ?en = "readme_en_US :: (unit, unit, unit) Source"
  let ?zh = "readme_zh_CN :: (unit, unit, unit) Source"
  let ?vss = "[[Numeric (Fin 0), Numeric (Fin 0)], [Numeric (Fin 0), Numeric (Fin 0)]]"
  have load: "loader ?en () = (Inr (Now (hello ''Hello!'')), ()) \<and>
      await (Now (hello ''Hello!'') :: (unit, unit object) loaded) = Fulfills (hello ''Hello!'')"
    by (simp add: readme_en_US_def sync_source_def)
  have tg: "source_tag ?en = ''en-US''"
    by (simp add: readme_en_US_def sync_source_def)
  have all: "verdicts_all (?en # [?zh]) [''fr-FR'', ''de''] () = (Inr ?vss, ())"
    by (simp add: readme_en_US_def readme_zh_CN_def sync_source_def async_source_def mean_def
        startsWith_def number_eval)
  have none: "\<forall>vs\<in>set ?vss. \<forall>v\<in>set vs. \<not> js_gt (score_of v) (Fin 0)"
    by (simp add: score_of_def number_eval)
  note inst = resolve_no_match_gives_fallback
    [where fb = ?en and others = "[?zh]" and ls = "[''fr-FR'', ''de'']" and w = "()"
       and vss = ?vss and w' = "()"]
  have a: "resolve (new_Internationalization ?en [?zh]) [] () = deliver ?en ()"
    using inst by (rule conjunct1)
  have gen: "\<forall>x t w''. loader ?en () = (Inr x, w'') \<and> await x = Fulfills t \<longrightarrow>
         (\<exists>r. resolve (new_Internationalization ?en [?zh]) [''fr-FR'', ''de''] () =
                 (Fulfills r, w'') \<and>
              r = tag t (Text (source_tag ?en)) \<and>
              r Tag = Some (Text (source_tag ?en)) \<and>
              (\<forall>s. s \<noteq> ''__proto__'' \<longrightarrow> r (StringKey s) = t (StringKey s)))"
    using inst all none by blast
  from gen [rule_format, OF load] obtain r where
    r: "resolve (new_Internationalization ?en [?zh]) [''fr-FR'', ''de''] () = (Fulfills r, ())"
      "r Tag = Some (Text (source_tag ?en))"
      "\<forall>s. s \<noteq> ''__proto__'' \<longrightarrow> r (StringKey s) = hello ''Hello!'' (StringKey s)"
    by blast
  have "r (StringKey ''hello'') = Some (Text ''Hello!'')"
    using r(3) by (simp add: hello_def)
  then have b: "\<exists>r. resolve readme_i18n [''fr-FR'', ''de''] () =
           (Fulfills r :: (unit, unit object) settlement, ()) \<and>
         r Tag = Some (Text ''en-US'') \<and> r (StringKey ''hello'') = Some (Text ''Hello!'')"
    using r(1,2) tg by (auto simp: readme_i18n_def)
  have "resolve readme_i18n [] () =
     (Fulfills (tag (hello ''Hello!'') (Text ''en-US'')) :: (unit, unit object) settlement, ())"
    using a load tg by (simp add: readme_i18n_def deliver_def)
  then show ?thesis using b by blast
qed

section \<open>Tagging\<close>

text \<open>
  C6. Reading the key \<^term>\<open>Tag\<close> of \<open>tag t v\<close> gives exactly \<open>v\<close>, whatever the payload
  \<open>t\<close> holds. \<^term>\<open>Tag\<close> is a symbol, so it is no string key: no field of a payload is the
  marker, and writing the marker changes no field, a string key reading in \<open>tag t v\<close> what it
  reads in the untagged copy \<^verbatim>\<open>Object.assign({}, t)\<close>. That is what it reads in \<open>t\<close>,
  except for \<^verbatim>\<open>__proto__\<close>, which \<^verbatim>\<open>Object.assign\<close> does not copy; the keys of \<open>tag t v\<close>
  are \<^term>\<open>Tag\<close> and those of \<open>t\<close> other than \<^verbatim>\<open>__proto__\<close>.
\<close>

theorem tag_round_trip:
  "tag t v Tag = Some v \<and> Tag \<noteq> StringKey s \<and>
   tag t v (StringKey s) = Object_assign Map.empty [t] (StringKey s) \<and>
   tag t v (StringKey s) = (if s = ''__proto__'' then None else t (StringKey s)) \<and>
   dom (tag t v) = insert Tag (dom t - {StringKey ''__proto__''})"
proof (intro conjI)
  show "tag t v Tag = Some v"
    by (simp add: tag_reads)
  show "Tag \<noteq> StringKey s"
    by (simp add: Tag_def)
  show "tag t v (StringKey s) = Object_assign Map.empty [t] (StringKey s)"
    by (simp add: tag_reads Tag_def Object_assign_def assign_from_def restrict_map_def)
  show "tag t v (StringKey s) = (if s = ''__proto__'' then None else t (StringKey s))"
    by (simp add: tag_reads Tag_def)
  show "dom (tag t v) = insert Tag (dom t - {StringKey ''__proto__''})"
    by (auto simp: tag_reads dom_def Tag_def split: if_splits)
qed

text \<open>
  A payload with an own field \<^verbatim>\<open>__proto__\<close>, as \<^verbatim>\<open>JSON.parse\<close> can build it: the tagged
  object has the field \<^verbatim>\<open>hello\<close> and the tag, and no field \<^verbatim>\<open>__proto__\<close>.
\<close>

lemma tag_drops_proto:
  "dom (tag [StringKey ''__proto__'' \<mapsto> Text ''x'', StringKey ''hello'' \<mapsto> Text ''Hello!'']
          (Text ''en-US'' :: unit jsvalue)) =
     {Tag, StringKey ''hello''}"
  by (auto simp: tag_reads dom_def Tag_def split: if_splits)

section \<open>The mean of predicates\<close>

lemma mean_reduce_returns:
  "returns ps c w = (Inr vs, w') \<Longrightarrow>
   mean_reduce ps c acc w = (Inr (foldl js_add acc (map Number vs)), w')"
  by (induction ps arbitrary: vs w acc) (auto split: prod.splits sum.splits)

lemma mean_reduce_raises:
  "returns ps c w = (Inl e, w') \<Longrightarrow> mean_reduce ps c acc w = (Inl e, w')"
  by (induction ps arbitrary: w acc) (auto split: prod.splits sum.splits)

lemma returns_length: "returns ps c w = (Inr vs, w') \<Longrightarrow> length vs = length ps"
  by (induction ps arbitrary: vs w) (auto split: prod.splits sum.splits)

lemma mean_returns:
  assumes "returns ps c w = (Inr vs, w')"
  shows "mean ps c w =
    (Inr (Numeric (js_div (foldl js_add (Fin 0) (map Number vs)) (num (of_nat (length ps))))), w')"
  by (simp add: mean_def mean_reduce_returns [OF assms])

lemma exact_sums_take:
  "exact_sums xs \<Longrightarrow> k \<le> length xs \<Longrightarrow>
   round_double (sum_list (take k xs)) = Some (sum_list (take k xs))"
  by (cases "k = length xs") (auto simp: exact_sums_def list_all_iff)

lemma mean_exact:
  assumes ps: "ps \<noteq> []" "length ps < 2 ^ 53"
    and vs: "returns ps c w = (Inr vs, w')"
    and xs: "map (val \<circ> Number) vs = map Some xs"
    and exact: "exact_sums xs"
  shows "mean ps c w = (Inr (Numeric (rounded (arithmetic_mean xs))), w')"
proof -
  have "length (map (val \<circ> Number) vs) = length (map Some xs)"
    by (simp only: xs)
  then have len: "length xs = length ps"
    using returns_length [OF vs] by simp
  have "map val (map Number vs) = map Some xs"
    using xs by simp
  moreover have "\<forall>k<length xs. round_double (0 + sum_list (take k xs)) =
      Some (0 + sum_list (take k xs))"
    using exact by (simp add: exact_sums_take)
  ultimately have "foldl js_add (rounded 0) (map Number vs) = rounded (0 + sum_list xs)"
    by (rule foldl_js_add_rounded)
  then have total: "foldl js_add (Fin 0) (map Number vs) = rounded (sum_list xs)"
    by (simp add: rounded_zero)
  have s: "round_double (sum_list xs) = Some (sum_list xs)"
    using exact_sums_take [OF exact, of "length xs"] by simp
  have n: "round_double (of_nat (length ps)) = Some (of_nat (length ps))"
    using ps(2) by (rule round_double_of_nat)
  have pos: "(0 :: rat) < of_nat (length ps)"
    using ps(1) by simp
  have "js_div (rounded (sum_list xs)) (rounded (of_nat (length ps))) =
      rounded (sum_list xs / of_nat (length ps))"
    using s n pos by (rule js_div_rounded)
  then show ?thesis
    by (simp add: mean_returns [OF vs] total num_def arithmetic_mean_def len)
qed

text \<open>
  Boolean verdicts: every partial sum is a count, which is exact below \<open>2 ^ 53\<close>.
\<close>

lemma sum_list_of_bool: "sum_list (map of_bool bs) = (of_nat (length (filter id bs)) :: rat)"
  by (induction bs) simp_all

lemma exact_sums_of_bool:
  assumes "length bs < 2 ^ 53"
  shows "exact_sums (map of_bool bs)"
  unfolding exact_sums_def list_all_iff
proof
  fix k assume "k \<in> set [0 ..< Suc (length (map of_bool bs :: rat list))]"
  have "length (filter id (take k bs)) \<le> length (take k bs)"
    by (rule length_filter_le)
  also have "\<dots> \<le> length bs" by simp
  finally have "length (filter id (take k bs)) < 2 ^ 53"
    using assms by simp
  then have "round_double (of_nat (length (filter id (take k bs)))) =
      Some (of_nat (length (filter id (take k bs))))"
    by (rule round_double_of_nat)
  then show "round_double (sum_list (take k (map of_bool bs))) =
      Some (sum_list (take k (map of_bool bs)))"
    by (simp add: take_map sum_list_of_bool)
qed

lemma mean_of_booleans:
  assumes ps: "ps \<noteq> []" "length ps < 2 ^ 53"
    and vs: "returns ps c w = (Inr (map Boolean bs), w')"
  shows "mean ps c w =
    (Inr (Numeric (rounded (of_nat (length (filter id bs)) / of_nat (length bs)))), w')"
proof -
  have len: "length bs = length ps"
    using returns_length [OF vs] by simp
  have xs: "map (val \<circ> Number) (map Boolean bs) = map Some (map of_bool bs)"
    by (simp add: double_rep)
  have "exact_sums (map of_bool bs)"
    using ps(2) len by (simp add: exact_sums_of_bool)
  with ps vs xs
  have "mean ps c w = (Inr (Numeric (rounded (arithmetic_mean (map of_bool bs)))), w')"
    by (rule mean_exact)
  then show ?thesis
    by (simp add: arithmetic_mean_def sum_list_of_bool)
qed

text \<open>
  C7, as the code has it. Let the predicates \<open>ps\<close> return the verdicts \<open>vs\<close> for the
  candidate \<open>c\<close> (whatever else they do). Then \<open>mean ps c\<close> is the running sum of the
  numbers \<^verbatim>\<open>Number(v)\<close>, added to 0 from left to right, over the count, every operation
  rounding to the nearest double; and when a predicate raises, \<open>mean ps c\<close> raises the same
  error. For a non-empty list of fewer than \<open>2 ^ 53\<close> predicates whose verdicts are the
  finite numbers \<open>xs\<close>, this is the arithmetic mean of \<open>xs\<close>, rounded to the nearest
  double, whenever the running sum is exact; it is for boolean verdicts, whose mean is the
  share of the predicates that hold. In particular \<^verbatim>\<open>mean(startsWith("en"), is("en-US"))\<close>
  is 1 on \<^verbatim>\<open>"en-US"\<close> and 0.5 on \<^verbatim>\<open>"en-GB"\<close>.
\<close>

theorem mean_is_rounded_mean:
  "(returns ps c w = (Inr vs, w') \<longrightarrow>
      mean ps c w =
        (Inr (Numeric (js_div (foldl js_add (Fin 0) (map Number vs))
                              (num (of_nat (length ps))))), w')) \<and>
   (returns ps c w = (Inl e, w') \<longrightarrow> mean ps c w = (Inl e, w')) \<and>
   (ps \<noteq> [] \<and> length ps < 2 ^ 53 \<and> returns ps c w = (Inr vs, w') \<and>
    map (val \<circ> Number) vs = map Some xs \<and> exact_sums xs \<longrightarrow>
      mean ps c w = (Inr (Numeric (rounded (arithmetic_mean xs))), w')) \<and>
   (ps \<noteq> [] \<and> length ps < 2 ^ 53 \<and> returns ps c w = (Inr (map Boolean bs), w') \<longrightarrow>
      mean ps c w =
        (Inr (Numeric (rounded (of_nat (length (filter id bs)) / of_nat (length bs)))), w')) \<and>
   mean [startsWith ''en'', is_tag ''en-US''] ''en-US'' w = (Inr (Numeric (Fin 1)), w) \<and>
   mean [startsWith ''en'', is_tag ''en-US''] ''en-GB'' w = (Inr (Numeric (num (1 / 2))), w)"
proof (intro conjI impI)
  assume "returns ps c w = (Inr vs, w')"
  then show "mean ps c w =
        (Inr (Numeric (js_div (foldl js_add (Fin 0) (map Number vs))
                              (num (of_nat (length ps))))), w')"
    by (rule mean_returns)
next
  assume "returns ps c w = (Inl e, w')"
  then show "mean ps c w = (Inl e, w')"
    by (simp add: mean_def mean_reduce_raises)
next
  assume "ps \<noteq> [] \<and> length ps < 2 ^ 53 \<and> returns ps c w = (Inr vs, w') \<and>
    map (val \<circ> Number) vs = map Some xs \<and> exact_sums xs"
  then show "mean ps c w = (Inr (Numeric (rounded (arithmetic_mean xs))), w')"
    using mean_exact [of ps c w vs w' xs] by blast
next
  assume "ps \<noteq> [] \<and> length ps < 2 ^ 53 \<and> returns ps c w = (Inr (map Boolean bs), w')"
  then show "mean ps c w =
        (Inr (Numeric (rounded (of_nat (length (filter id bs)) / of_nat (length bs)))), w')"
    using mean_of_booleans [of ps c w bs w'] by blast
next
  show "mean [startsWith ''en'', is_tag ''en-US''] ''en-US'' w = (Inr (Numeric (Fin 1)), w)"
    by (simp add: mean_def startsWith_def is_tag_def number_eval)
next
  show "mean [startsWith ''en'', is_tag ''en-US''] ''en-GB'' w =
      (Inr (Numeric (num (1 / 2))), w)"
    by (simp add: mean_def startsWith_def is_tag_def number_eval)
qed

theorem mean_is_rounded_mean_witness:
  "mean [weighted (num 2) (startsWith ''en''), endsWith ''US''] ''en-US'' () =
     (Inr (Numeric (num (3 / 2))) :: unit + verdict, ()) \<and>
   mean [startsWith ''en'', endsWith ''US'', is_tag ''en''] ''en-US'' () =
     (Inr (Numeric (num (2 / 3))) :: unit + verdict, ())"
proof -
  let ?ps = "[weighted (num 2) (startsWith ''en''), endsWith ''US''] :: (unit, unit) Predicate list"
  let ?vs = "[Numeric (num 2), Boolean True]"
  let ?qs = "[startsWith ''en'', endsWith ''US'', is_tag ''en''] :: (unit, unit) Predicate list"
  have ret: "returns ?ps ''en-US'' () = (Inr ?vs, ())"
    by (simp add: weighted_def startsWith_def endsWith_def suffix_def number_eval)
  have fin: "map (val \<circ> Number) ?vs = map Some [2, 1]"
    by (simp add: number_eval)
  have ex: "exact_sums [2, 1]"
    by (simp add: exact_sums_def upt_rec round_double_eval)
  have ne: "?ps \<noteq> [] \<and> length ?ps < 2 ^ 53" by simp
  from mean_is_rounded_mean [of ?ps "''en-US''" "()" ?vs "()" _ "[2, 1]"] ne ret fin ex
  have "mean ?ps ''en-US'' () = (Inr (Numeric (rounded (arithmetic_mean [2, 1]))), ())"
    by blast
  then have a: "mean ?ps ''en-US'' () = (Inr (Numeric (num (3 / 2))), ())"
    by (simp add: arithmetic_mean_def num_def)
  have retq: "returns ?qs ''en-US'' () = (Inr (map Boolean [True, True, False]), ())"
    by (simp add: startsWith_def endsWith_def is_tag_def suffix_def)
  have neq: "?qs \<noteq> [] \<and> length ?qs < 2 ^ 53" by simp
  from mean_is_rounded_mean [of ?qs "''en-US''" "()" _ "()" _ _ "[True, True, False]"] neq retq
  have "mean ?qs ''en-US'' () =
      (Inr (Numeric (rounded (of_nat (length (filter id [True, True, False])) /
                              of_nat (length [True, True, False])))), ())"
    by blast
  then have b: "mean ?qs ''en-US'' () = (Inr (Numeric (num (2 / 3))), ())"
    by (simp add: num_def)
  show ?thesis using a b by simp
qed

text \<open>
  C7 as stated fails where the running sum rounds. The verdicts \<open>2 ^ 53\<close>, 1 and
  \<open>- 2 ^ 53\<close> have the arithmetic mean 1/3, but \<open>2 ^ 53 + 1\<close> is no double and rounds to
  \<open>2 ^ 53\<close>: the running sum ends at 0, and so does the mean.
\<close>

theorem mean_differs_from_arithmetic_mean:
  "mean [weighted (num 9007199254740992) (startsWith ''en''), startsWith ''en'',
         weighted (num (- 9007199254740992)) (startsWith ''en'')] ''en'' () =
     (Inr (Numeric (Fin 0)) :: unit + verdict, ()) \<and>
   returns [weighted (num 9007199254740992) (startsWith ''en''), startsWith ''en'',
         weighted (num (- 9007199254740992)) (startsWith ''en'')] ''en'' () =
     (Inr [Numeric (num 9007199254740992), Boolean True, Numeric (num (- 9007199254740992))]
        :: unit + verdict list, ()) \<and>
   map (val \<circ> Number)
     [Numeric (num 9007199254740992), Boolean True, Numeric (num (- 9007199254740992))] =
     map Some [9007199254740992, 1, - 9007199254740992] \<and>
   arithmetic_mean [9007199254740992, 1, - 9007199254740992] = 1 / 3 \<and>
   rounded (1 / 3) \<noteq> Fin 0"
  by (simp add: mean_def weighted_def startsWith_def arithmetic_mean_def number_eval)

text \<open>The mean of no predicates, which the contract excludes, is \<^verbatim>\<open>0 / 0\<close>.\<close>

lemma mean_of_no_predicates: "mean [] c w = (Inr (Numeric NaN), w)"
  by (simp add: mean_def number_eval)

section \<open>Scores are magnitudes\<close>

lemma js_mul_minus_one: "js_mul a (Fin (- 1)) = js_neg a"
proof (cases a)
  case (Fin d)
  show ?thesis
  proof (cases "d = 0")
    case True
    then show ?thesis
      by (simp add: Fin js_mul_def signed_zero_def double_rep)
  next
    case False
    then have nz: "Rep_double d \<noteq> 0" "- d \<noteq> 0"
      by (simp_all add: double_eq_iff double_rep)
    have "rounded (Rep_double (- d)) = Fin (- d)"
      using nz(2) by (rule rounded_double)
    then show ?thesis
      using False nz by (simp add: Fin js_mul_def double_rep)
  qed
qed (simp_all add: js_mul_def inf_of_sign_def signed_zero_def double_rep)

lemma weighted_minus_one:
  "weighted (Fin (- 1)) p l w =
     (case p l w of
        (Inl e, w') \<Rightarrow> (Inl e, w')
      | (Inr v, w') \<Rightarrow> (Inr (Numeric (js_neg (Number v))), w'))"
  by (simp add: weighted_def js_mul_minus_one split: prod.splits sum.splits)

lemma sign_flipped_predicate:
  assumes "sign_flipped s s'"
  shows "(\<exists>e w1. predicate s l w = (Inl e, w1) \<and> predicate s' l w = (Inl e, w1)) \<or>
         (\<exists>v v' w1. predicate s l w = (Inr v, w1) \<and> predicate s' l w = (Inr v', w1) \<and>
            js_abs (Number v') = js_abs (Number v))"
proof (cases "predicate s l w")
  case (Pair r w1)
  show ?thesis
  proof (cases r)
    case (Inl e)
    with Pair assms show ?thesis
      by (auto simp: sign_flipped_def weighted_minus_one)
  next
    case (Inr v)
    with Pair assms show ?thesis
      by (auto simp: sign_flipped_def weighted_minus_one js_abs_neg)
  qed
qed

lemma scan_sources_sign:
  assumes "list_all2 sign_flipped ss ss'" and "sign_flipped s0 s0'"
  shows "(\<exists>e w'. scan_sources ss l (m, s0) w = (Inl e, w') \<and>
                 scan_sources ss' l (m, s0') w = (Inl e, w')) \<or>
         (\<exists>m1 s1 s1' w'. scan_sources ss l (m, s0) w = (Inr (m1, s1), w') \<and>
                 scan_sources ss' l (m, s0') w = (Inr (m1, s1'), w') \<and> sign_flipped s1 s1')"
  using assms
proof (induction ss ss' arbitrary: m s0 s0' w rule: list_all2_induct)
  case Nil
  then show ?case by simp
next
  case (Cons s ss s' ss')
  from sign_flipped_predicate [OF Cons.hyps(1), of l w] show ?case
  proof
    assume "\<exists>e w1. predicate s l w = (Inl e, w1) \<and> predicate s' l w = (Inl e, w1)"
    then show ?thesis by auto
  next
    assume "\<exists>v v' w1. predicate s l w = (Inr v, w1) \<and> predicate s' l w = (Inr v', w1) \<and>
            js_abs (Number v') = js_abs (Number v)"
    then obtain v v' w1 where p: "predicate s l w = (Inr v, w1)" "predicate s' l w = (Inr v', w1)"
      "js_abs (Number v') = js_abs (Number v)" by blast
    show ?thesis
    proof (cases "js_gt (js_abs (Number v)) m")
      case True
      then have "scan_sources (s # ss) l (m, s0) w = scan_sources ss l (js_abs (Number v), s) w1"
        and "scan_sources (s' # ss') l (m, s0') w = scan_sources ss' l (js_abs (Number v), s') w1"
        using p by (simp_all add: Let_def)
      then show ?thesis
        using Cons.IH [OF Cons.hyps(1), of "js_abs (Number v)" w1] by simp
    next
      case False
      then have "scan_sources (s # ss) l (m, s0) w = scan_sources ss l (m, s0) w1"
        and "scan_sources (s' # ss') l (m, s0') w = scan_sources ss' l (m, s0') w1"
        using p by (simp_all add: Let_def)
      then show ?thesis
        using Cons.IH [OF Cons.prems, of m w1] by simp
    qed
  qed
qed

lemma scan_locales_sign:
  assumes "list_all2 sign_flipped ss ss'" and "sign_flipped s0 s0'"
  shows "(\<exists>e w'. scan_locales ss ls (m, s0) w = (Inl e, w') \<and>
                 scan_locales ss' ls (m, s0') w = (Inl e, w')) \<or>
         (\<exists>m1 s1 s1' w'. scan_locales ss ls (m, s0) w = (Inr (m1, s1), w') \<and>
                 scan_locales ss' ls (m, s0') w = (Inr (m1, s1'), w') \<and> sign_flipped s1 s1')"
  using assms(2)
proof (induction ls arbitrary: m s0 s0' w)
  case Nil
  then show ?case by simp
next
  case (Cons l ls)
  from scan_sources_sign [OF assms(1) Cons.prems, of l m w] show ?case
  proof
    assume "\<exists>e w'. scan_sources ss l (m, s0) w = (Inl e, w') \<and>
                 scan_sources ss' l (m, s0') w = (Inl e, w')"
    then show ?thesis by auto
  next
    assume "\<exists>m1 s1 s1' w'. scan_sources ss l (m, s0) w = (Inr (m1, s1), w') \<and>
                 scan_sources ss' l (m, s0') w = (Inr (m1, s1'), w') \<and> sign_flipped s1 s1'"
    then obtain m1 s1 s1' w1 where one: "scan_sources ss l (m, s0) w = (Inr (m1, s1), w1)"
      "scan_sources ss' l (m, s0') w = (Inr (m1, s1'), w1)" "sign_flipped s1 s1'" by blast
    show ?thesis
    proof (cases "js_gt m1 (Fin 0)")
      case True
      then show ?thesis using one by simp
    next
      case False
      then have "scan_locales ss (l # ls) (m, s0) w = scan_locales ss ls (m1, s1) w1"
        and "scan_locales ss' (l # ls) (m, s0') w = scan_locales ss' ls (m1, s1') w1"
        using one by simp_all
      then show ?thesis using Cons.IH [OF one(3), of m1 w1] by simp
    qed
  qed
qed

lemma deliver_sign: "sign_flipped s s' \<Longrightarrow> deliver s' w = deliver s w"
  by (auto simp: sign_flipped_def deliver_def split: prod.splits sum.splits settlement.splits)

text \<open>
  C4. The score of a source for a locale is \<^verbatim>\<open>Math.abs(Number(v))\<close> of the verdict \<open>v\<close> its
  predicate returns (with \<^verbatim>\<open>Number(true) = 1\<close> and \<^verbatim>\<open>Number(false) = 0\<close>): this is the value
  one step of the scan compares with \<^verbatim>\<open>max\<close> and stores. Negating the verdicts of any of the
  sources (whatever their predicates do otherwise) changes nothing of what \<^verbatim>\<open>resolve\<close>
  returns or does.
\<close>

theorem resolve_compares_magnitudes:
  "(list_all2 sign_flipped (fb # others) (fb' # others') \<longrightarrow>
      resolve (new_Internationalization fb' others') ls w =
      resolve (new_Internationalization fb others) ls w) \<and>
   (predicate s l w = (Inr v, w') \<longrightarrow>
      scan_sources [s] l (m, src) w =
        (Inr (if js_gt (js_abs (Number v)) m then (js_abs (Number v), s) else (m, src)), w')) \<and>
   Number (Boolean True) = Fin 1 \<and> Number (Boolean False) = Fin 0"
proof (intro conjI impI)
  assume rel: "list_all2 sign_flipped (fb # others) (fb' # others')"
  then have fb: "sign_flipped fb fb'" by simp
  from scan_locales_sign [OF rel fb, of ls "Fin 0" w]
  show "resolve (new_Internationalization fb' others') ls w =
      resolve (new_Internationalization fb others) ls w"
    by (auto simp: resolve_def select_single deliver_sign)
next
  assume "predicate s l w = (Inr v, w')"
  then show "scan_sources [s] l (m, src) w =
        (Inr (if js_gt (js_abs (Number v)) m then (js_abs (Number v), s) else (m, src)), w')"
    by (simp add: Let_def)
qed simp_all

theorem resolve_compares_magnitudes_witness:
  "resolve (new_Internationalization
      (sync_source ''en-US'' (startsWith ''en'') (hello ''Hello!''))
      [(sync_source ''zh-CN'' (weighted (num 2) (startsWith ''zh'')) (hello ''Ni hao!''))
         \<lparr>predicate := weighted (Fin (- 1)) (weighted (num 2) (startsWith ''zh''))\<rparr>])
     [''zh-CN''] () =
   (Fulfills (tag (hello ''Ni hao!'') (Text ''zh-CN'')) :: (unit, unit object) settlement, ()) \<and>
   weighted (Fin (- 1)) (weighted (num 2) (startsWith ''zh'')) ''zh-CN'' () =
     (Inr (Numeric (num (- 2))) :: unit + verdict, ())"
proof -
  let ?fb = "sync_source ''en-US'' (startsWith ''en'') (hello ''Hello!'') :: (unit, unit, unit) Source"
  let ?zh = "sync_source ''zh-CN'' (weighted (num 2) (startsWith ''zh'')) (hello ''Ni hao!'')
              :: (unit, unit, unit) Source"
  let ?neg = "?zh\<lparr>predicate := weighted (Fin (- 1)) (weighted (num 2) (startsWith ''zh''))\<rparr>"
  have rel: "list_all2 sign_flipped (?fb # [?zh]) (?fb # [?neg])"
    by (simp add: sign_flipped_def sync_source_def)
  have "resolve (new_Internationalization ?fb [?neg]) [''zh-CN''] () =
        resolve (new_Internationalization ?fb [?zh]) [''zh-CN''] ()"
    using resolve_compares_magnitudes [of ?fb "[?zh]" ?fb "[?neg]" "[''zh-CN'']" "()"] rel
    by blast
  also have "\<dots> = (Fulfills (tag (hello ''Ni hao!'') (Text ''zh-CN'')), ())"
    by (simp add: resolve_def select_def new_Internationalization_def sync_source_def
        startsWith_def weighted_def deliver_def number_eval)
  finally show ?thesis
    by (simp add: weighted_def startsWith_def number_eval)
qed

section \<open>Failures\<close>

text \<open>
  C8. \<^verbatim>\<open>resolve\<close> has no handler, so a failure ends it with the error unchanged:
  \<^item> a predicate raises. Let the predicates return, for the locales before position \<open>i\<close>
    of the preference list, verdicts without a positive score (with a positive score the
    scan would have stopped), and for the locale at \<open>i\<close> let the predicates of the sources
    before position \<open>k\<close> return and the predicate of the source at \<open>k\<close> raise \<open>e\<close>. Then
    \<^verbatim>\<open>resolve\<close> rejects with \<open>e\<close>, whatever the earlier sources scored, and no loader is
    called (the world is the one the predicate left);
  \<^item> whenever the selection raises \<open>e\<close>, \<^verbatim>\<open>resolve\<close> rejects with \<open>e\<close>, and \<open>e\<close> was raised by
    the predicate of a source for a listed locale;
  \<^item> if the loader of the selected source raises \<open>e\<close>, or returns a promise that rejects with
    \<open>e\<close>, \<^verbatim>\<open>resolve\<close> rejects with \<open>e\<close>, and the world is the one that single call of the loader
    left: no other loader has run, and none has run twice.
\<close>

theorem resolve_propagates_failure:
  "(i < length ls \<and>
    verdicts_all (fb # others) (take i ls) w = (Inr vss, wa) \<and>
    (\<forall>vs\<in>set vss. \<forall>v\<in>set vs. \<not> js_gt (score_of v) (Fin 0)) \<and>
    k < length (fb # others) \<and>
    verdicts (take k (fb # others)) (ls ! i) wa = (Inr vs, w0) \<and>
    predicate ((fb # others) ! k) (ls ! i) w0 = (Inl e, w') \<longrightarrow>
      resolve (new_Internationalization fb others) ls w = (Rejects e, w')) \<and>
   (select i18n ls w = (Inl e, w') \<longrightarrow>
      resolve i18n ls w = (Rejects e, w') \<and>
      (\<exists>s\<in>set (sources i18n). \<exists>l\<in>set ls. \<exists>w0. predicate s l w0 = (Inl e, w'))) \<and>
   (select i18n ls w = (Inr (m, src), w1) \<and> loader src w1 = (Inl e, w2) \<longrightarrow>
      resolve i18n ls w = (Rejects e, w2)) \<and>
   (select i18n ls w = (Inr (m, src), w1) \<and> loader src w1 = (Inr (Later p), w2) \<and>
    fate p = Rejects e \<longrightarrow>
      resolve i18n ls w = (Rejects e, w2))"
proof (intro conjI impI)
  let ?ss = "fb # others"
  assume a: "i < length ls \<and>
    verdicts_all ?ss (take i ls) w = (Inr vss, wa) \<and>
    (\<forall>vs\<in>set vss. \<forall>v\<in>set vs. \<not> js_gt (score_of v) (Fin 0)) \<and>
    k < length ?ss \<and>
    verdicts (take k ?ss) (ls ! i) wa = (Inr vs, w0) \<and>
    predicate (?ss ! k) (ls ! i) w0 = (Inl e, w')"
  from a have i: "i < length ls" by (rule conjunct1)
  from a have before: "verdicts_all ?ss (take i ls) w = (Inr vss, wa)"
    by (simp only:)
  from a have none: "\<forall>vs\<in>set vss. \<forall>v\<in>set vs. \<not> js_gt (score_of v) (Fin 0)"
    by (rule conjunct2 [THEN conjunct2, THEN conjunct1])
  from a have k: "k < length ?ss" by (simp only:)
  from a have pre: "verdicts (take k ?ss) (ls ! i) wa = (Inr vs, w0)"
    by (simp only:)
  from a have bad: "predicate (?ss ! k) (ls ! i) w0 = (Inl e, w')"
    by (simp only:)
  have first: "scan_locales ?ss (take i ls) (Fin 0, fb) w = (Inr (Fin 0, fb), wa)"
    using before none by (rule scan_locales_none)
  have split: "take k ?ss @ ?ss ! k # drop (Suc k) ?ss = ?ss"
    using k by (rule id_take_nth_drop [symmetric])
  have "scan_sources (take k ?ss @ ?ss ! k # drop (Suc k) ?ss) (ls ! i) (Fin 0, fb) wa =
      (Inl e, w')"
    using pre bad by (rule scan_sources_verdicts_raise)
  then have "scan_sources ?ss (ls ! i) (Fin 0, fb) wa = (Inl e, w')"
    by (simp only: split)
  then have at: "scan_locales ?ss (ls ! i # drop (Suc i) ls) (Fin 0, fb) wa = (Inl e, w')"
    by simp
  have "scan_locales ?ss (take i ls @ ls ! i # drop (Suc i) ls) (Fin 0, fb) w =
      scan_locales ?ss (ls ! i # drop (Suc i) ls) (Fin 0, fb) wa"
    using first by (rule scan_locales_append) simp
  moreover have "take i ls @ ls ! i # drop (Suc i) ls = ls"
    using i by (rule id_take_nth_drop [symmetric])
  ultimately have "scan_locales ?ss ls (Fin 0, fb) w = (Inl e, w')"
    using at by simp
  then show "resolve (new_Internationalization fb others) ls w = (Rejects e, w')"
    by (simp add: resolve_def select_single)
next
  assume a: "select i18n ls w = (Inl e, w')"
  then show "resolve i18n ls w = (Rejects e, w')"
    by (simp add: resolve_def)
  from a show "\<exists>s\<in>set (sources i18n). \<exists>l\<in>set ls. \<exists>w0. predicate s l w0 = (Inl e, w')"
    unfolding select_def by (rule scan_locales_error_origin)
next
  assume "select i18n ls w = (Inr (m, src), w1) \<and> loader src w1 = (Inl e, w2)"
  then show "resolve i18n ls w = (Rejects e, w2)"
    by (simp add: resolve_def deliver_def)
next
  assume "select i18n ls w = (Inr (m, src), w1) \<and> loader src w1 = (Inr (Later p), w2) \<and>
    fate p = Rejects e"
  then show "resolve i18n ls w = (Rejects e, w2)"
    by (simp add: resolve_def deliver_def)
qed

text \<open>
  Two resolvers. In the first the source selected for \<^verbatim>\<open>"zh-CN"\<close> returns a promise that
  rejects. In the second the predicate of the second source raises for \<^verbatim>\<open>"zh-CN"\<close>, the
  second locale of the list, after no source has matched the first.
\<close>

theorem resolve_propagates_failure_witness:
  "resolve (new_Internationalization
      (logging_source ''en-US'' (startsWith ''en'') (Inr (Now (hello ''Hello!''))))
      [logging_source ''zh-CN'' (startsWith ''zh'')
         (Inr (Later (Promise 1 (Rejects ''network down''))))])
     [''zh-CN'', ''en-US''] [] =
   (Rejects ''network down'' :: (string, unit object) settlement, [''zh-CN'']) \<and>
   resolve (new_Internationalization
      (logging_source ''en-US'' (startsWith ''en'') (Inr (Now (hello ''Hello!''))))
      [logging_source ''zh-CN''
         (\<lambda>t log. if t = ''zh-CN'' then (Inl ''bad predicate'', log)
                   else (Inr (Boolean False), log))
         (Inr (Now (hello ''Ni hao!'')))])
     [''fr'', ''zh-CN'', ''en-US''] [] =
   (Rejects ''bad predicate'' :: (string, unit object) settlement, [])"
proof -
  let ?en = "logging_source ''en-US'' (startsWith ''en'') (Inr (Now (hello ''Hello!'')))
             :: (string list, string, unit) Source"
  let ?zh = "logging_source ''zh-CN'' (startsWith ''zh'')
         (Inr (Later (Promise 1 (Rejects ''network down'')))) :: (string list, string, unit) Source"
  let ?bad = "logging_source ''zh-CN''
         (\<lambda>t log. if t = ''zh-CN'' then (Inl ''bad predicate'', log)
                   else (Inr (Boolean False), log))
         (Inr (Now (hello ''Ni hao!''))) :: (string list, string, unit) Source"
  let ?p = "Promise 1 (Rejects ''network down'') :: (string, unit object) PromiseLike"
  let ?ls = "[''fr'', ''zh-CN'', ''en-US'']"
  have sel: "select (new_Internationalization ?en [?zh]) [''zh-CN'', ''en-US''] [] =
      (Inr (Fin 1, ?zh), [])"
    by (simp add: select_def new_Internationalization_def logging_source_def startsWith_def
        number_eval)
  have ld: "loader ?zh [] = (Inr (Later ?p), [''zh-CN''])"
    by (simp add: logging_source_def)
  have ft: "fate ?p = Rejects ''network down''"
    by simp
  note inst1 = resolve_propagates_failure
      [where ?i18n = "new_Internationalization ?en [?zh]" and ?ls = "[''zh-CN'', ''en-US'']"
         and ?w = "[]" and ?m = "Fin 1" and ?src = ?zh and ?w1.0 = "[]" and ?p = ?p
         and ?w2.0 = "[''zh-CN'']" and ?e = "''network down''",
       THEN conjunct2, THEN conjunct2, THEN conjunct2, rule_format]
  have a: "resolve (new_Internationalization ?en [?zh]) [''zh-CN'', ''en-US''] [] =
      (Rejects ''network down'', [''zh-CN''])"
    using sel ld ft by (intro inst1 conjI)
  have i: "1 < length ?ls" by simp
  have before: "verdicts_all (?en # [?bad]) (take 1 ?ls) [] =
      (Inr [[Boolean False, Boolean False]], [])"
    by (simp add: logging_source_def startsWith_def)
  have none: "\<forall>vs\<in>set [[Boolean False, Boolean False]]. \<forall>v\<in>set vs.
      \<not> js_gt (score_of v) (Fin 0)"
    by (simp add: score_of_def number_eval)
  have k: "1 < length (?en # [?bad])" by simp
  have pre: "verdicts (take 1 (?en # [?bad])) (?ls ! 1) [] = (Inr [Boolean False], [])"
    by (simp add: logging_source_def startsWith_def)
  have raises: "predicate ((?en # [?bad]) ! 1) (?ls ! 1) [] = (Inl ''bad predicate'', [])"
    by (simp add: logging_source_def)
  note inst2 = resolve_propagates_failure
      [where ?i = 1 and ?ls = ?ls and ?k = 1 and ?fb = ?en and ?others = "[?bad]"
         and ?vss = "[[Boolean False, Boolean False]]" and ?vs = "[Boolean False]"
         and ?w = "[]" and ?wa = "[]" and ?w0.0 = "[]" and ?e = "''bad predicate''"
         and ?w' = "[]",
       THEN conjunct1, rule_format]
  have b: "resolve (new_Internationalization ?en [?bad]) ?ls [] =
      (Rejects ''bad predicate'', [])"
    using i before none k pre raises by (intro inst2 conjI)
  show ?thesis using a b by simp
qed

section \<open>Memoized loaders\<close>

lemma memoize_cached: "memoize depth ld (Some p, w) = Some (Inr p, (Some p, w))"
  by (cases depth) simp_all

lemma run_cached:
  "run depth ld evs (Some p, w) =
     Some (replicate (calls evs) (Inr p), (Some p, elsewhere evs w))"
proof (induction evs arbitrary: w)
  case Nil
  show ?case by simp
next
  case (Cons ev evs)
  show ?case
    by (cases ev) (simp_all add: Cons.IH memoize_cached)
qed

lemma finish_plain:
  "ld w = (r, w') \<Longrightarrow> finish call (plain ld w) promise = Some (r, (promise, w'))"
  by (simp add: plain_def)

text \<open>
  For a loader that never calls the closure back, a call of the closure always returns,
  at any depth that lets the loader run at all.
\<close>

lemma memoize_plain:
  "memoize (Suc depth) (plain ld) (None, w) =
     (case ld w of
        (Inl e, w') \<Rightarrow> Some (Inl e, (None, w'))
      | (Inr p, w') \<Rightarrow> Some (Inr p, (Some p, w')))"
  by (simp add: plain_def split: prod.splits sum.splits)

text \<open>
  When the first call of the closure finds the loader returning a promise \<open>p\<close>, that call
  and every later call return \<open>p\<close>, whatever else happens in between (the promise settling
  or not), and the world changes after the first call only by what happens elsewhere.
\<close>

lemma memoize_shares_first_promise:
  assumes "finish (memoize depth ld) (ld w) None = Some (Inr p, (c, w1))"
  shows "run (Suc depth) ld (Call # evs) (None, w) =
           Some (replicate (Suc (calls evs)) (Inr p), (Some p, elsewhere evs w1))"
  using assms by (simp add: run_cached)

text \<open>
  C5 fails for a loader that raises instead of returning a promise: nothing is assigned to
  the variable, and the next call of the closure calls the loader again. Here the loader
  counts its calls in the world: two calls of the closure, two calls of the loader.
\<close>

theorem memoize_raising_loader_runs_again:
  "run 1 (counting (Inl ''offline'')) [Call, Call] (None, 0) =
     Some ([Inl ''offline'', Inl ''offline''] :: (string + (string, unit) PromiseLike) list,
           (None, 2))"
  by (simp add: counting_def plain_def)

text \<open>
  So it does for a loader that calls the closure while it runs for the first time: the
  variable is still undefined then, the loader is called a second time, and the two calls
  of the closure return two promises.
\<close>

lemma memoize_reentering_loader_runs_twice:
  "memoize (Suc (Suc 0)) (reentering (Promise 1 Pends) (Promise 2 Pends)) (None, (0, [])) =
     Some (Inr (Promise 1 Pends) :: unit + (unit, unit) PromiseLike,
           (Some (Promise 1 Pends), (2, [Promise 2 Pends])))"
  by (simp add: reentering_def)

text \<open>
  C10. If the first call of the closure finds the loader returning a promise \<open>p\<close> that
  rejects with \<open>e\<close>, that call assigns \<open>p\<close> to the variable and returns it, and every later
  call returns this same promise, which rejects with \<open>e\<close>; a later call returns at any depth
  of the stack, and the world changes only by what happens elsewhere, so the loader never
  runs again.
\<close>

theorem memoize_caches_rejection:
  assumes "finish (memoize depth ld) (ld w) None = Some (Inr p, (c, w1))"
    and "fate p = Rejects e"
  shows "memoize (Suc depth) ld (None, w) = Some (Inr p, (Some p, w1)) \<and>
         run d ld evs (Some p, w1) =
           Some (replicate (calls evs) (Inr p), (Some p, elsewhere evs w1)) \<and>
         (\<forall>rs st. run d ld evs (Some p, w1) = Some (rs, st) \<longrightarrow>
            (\<forall>r\<in>set rs. \<exists>q. r = Inr q \<and> q = p \<and> fate q = Rejects e))"
  using assms by (simp add: run_cached)

theorem memoize_caches_rejection_witness:
  "run 1 (counting (Inr (Promise 3 (Rejects ''not found''))))
      [Call, Elsewhere (\<lambda>n. n), Call, Call] (None, 0) =
   Some ([Inr (Promise 3 (Rejects ''not found'')), Inr (Promise 3 (Rejects ''not found'')),
          Inr (Promise 3 (Rejects ''not found''))] :: (string + (string, unit) PromiseLike) list,
         (Some (Promise 3 (Rejects ''not found'')), 1))"
proof -
  let ?p = "Promise 3 (Rejects ''not found'') :: (string, unit) PromiseLike"
  let ?ld = "counting (Inr ?p) :: (nat, string, (string, unit) PromiseLike) Async"
  let ?evs = "[Elsewhere (\<lambda>n. n), Call, Call] :: nat event list"
  have ld: "finish (memoize 0 ?ld) (?ld 0) None = Some (Inr ?p, (None, 1))"
    by (simp add: counting_def plain_def)
  have ft: "fate ?p = Rejects ''not found''" by simp
  from memoize_caches_rejection [where ld = ?ld and w = 0 and evs = ?evs and d = 1, OF ld ft]
  have first: "memoize (Suc 0) ?ld (None, 0) = Some (Inr ?p, (Some ?p, 1))"
    and later: "run 1 ?ld ?evs (Some ?p, 1) =
      Some (replicate (calls ?evs) (Inr ?p), (Some ?p, elsewhere ?evs 1))"
    by blast+
  have "run 1 ?ld (Call # ?evs) (None, 0) =
      (case memoize 1 ?ld (None, 0) of
         None \<Rightarrow> None
       | Some (r, st') \<Rightarrow>
           (case run 1 ?ld ?evs st' of
              None \<Rightarrow> None
            | Some (rs, st'') \<Rightarrow> Some (r # rs, st'')))"
    by (rule run.simps(2))
  also have "\<dots> = Some (Inr ?p # replicate (calls ?evs) (Inr ?p), (Some ?p, elsewhere ?evs 1))"
    using first later by (simp only: One_nat_def option.case prod.case)
  finally show ?thesis by simp
qed

section \<open>Predicates and state\<close>

text \<open>
  The combinators other than \<^verbatim>\<open>matches\<close> build functions of the tag from functions of the
  tag, and such a predicate returns the same verdict however often it is evaluated and
  leaves the world as it was. So does \<^verbatim>\<open>matches\<close> for a regular expression with neither
  the \<^verbatim>\<open>g\<close> nor the \<^verbatim>\<open>y\<close> flag.
\<close>

lemma pure_predicate_stateless:
  "pure_predicate f c w = (Inr (f c), w) \<and> pure_predicate f c (snd (pure_predicate f c w)) = pure_predicate f c w"
  by (simp add: pure_predicate_def)

lemma startsWith_pure: "startsWith p = pure_predicate (\<lambda>t. Boolean (prefix p t))"
  by (simp add: startsWith_def pure_predicate_def)

lemma endsWith_pure: "endsWith p = pure_predicate (\<lambda>t. Boolean (suffix p t))"
  by (simp add: endsWith_def pure_predicate_def)

lemma is_tag_pure: "is_tag x = pure_predicate (\<lambda>t. Boolean (x = t))"
  by (simp add: is_tag_def pure_predicate_def)

lemma isOneOf_pure: "isOneOf xs = pure_predicate (\<lambda>t. Boolean (t \<in> set xs))"
  by (simp add: isOneOf_def pure_predicate_def)

lemma weighted_pure:
  "weighted c (pure_predicate f) = pure_predicate (\<lambda>t. Numeric (js_mul (Number (f t)) c))"
  by (simp add: weighted_def pure_predicate_def)

lemma mean_reduce_pure:
  "mean_reduce (map pure_predicate fs) t acc w =
     (Inr (foldl js_add acc (map (\<lambda>f. Number (f t)) fs)), w)"
  by (induction fs arbitrary: acc) (simp_all add: pure_predicate_def)

lemma mean_pure:
  "mean (map pure_predicate fs) =
     pure_predicate (\<lambda>t. Numeric (js_div (foldl js_add (Fin 0) (map (\<lambda>f. Number (f t)) fs))
                                          (num (of_nat (length fs)))))"
  by (rule ext, rule ext) (simp add: mean_def mean_reduce_pure pure_predicate_def)

text \<open>
  For sources whose predicates are functions of the tag, the verdicts are the values of these
  functions, and the world stays as it is.
\<close>

lemma verdicts_pure:
  "list_all2 (\<lambda>s f. predicate s = pure_predicate f) ss fs \<Longrightarrow>
   verdicts ss l w = (Inr (map (\<lambda>f. f l) fs), w)"
  by (induction ss fs rule: list_all2_induct) (simp_all add: pure_predicate_def)

lemma verdicts_all_pure:
  "list_all2 (\<lambda>s f. predicate s = pure_predicate f) ss fs \<Longrightarrow>
   verdicts_all ss ls w = (Inr (map (\<lambda>l. map (\<lambda>f. f l) fs) ls), w)"
  by (induction ls) (simp_all add: verdicts_pure)

lemma matches_plain_regexp:
  assumes "\<not> global (get w)" and "\<not> sticky (get w)" and "put (get w) w = w"
  shows "matches get put c w = (Inr (Boolean (regexp_search (get w) c 0 \<noteq> None)), w)"
  using assms by (simp add: matches_def regexp_test_def split: option.splits)

text \<open>
  C9. With the \<^verbatim>\<open>g\<close> flag the claim fails: the predicate \<^verbatim>\<open>matches(/en/g)\<close>, evaluated
  twice on \<^verbatim>\<open>"en-US"\<close>, returns true and leaves \<^verbatim>\<open>lastIndex = 2\<close> in the regular
  expression, then returns false and resets \<^verbatim>\<open>lastIndex\<close> to 0.
\<close>

theorem matches_global_regexp_is_stateful:
  "matches (\<lambda>w. w) (\<lambda>R w. R) ''en-US'' en_global =
     (Inr (Boolean True) :: unit + verdict, en_global\<lparr>lastIndex := 2\<rparr>) \<and>
   matches (\<lambda>w. w) (\<lambda>R w. R) ''en-US'' (en_global\<lparr>lastIndex := 2\<rparr>) =
     (Inr (Boolean False) :: unit + verdict, en_global)"
  by (simp add: matches_def regexp_test_def regexp_search.simps en_global_def literal_def)

end
